theory Spec2Isabelle
  imports Main "HOL-Library.List_Lexorder"
begin

section \<open>Strings\<close>

text \<open>
  A Python \<^verbatim>\<open>str\<close> is a sequence of Unicode code points, and \<^verbatim>\<open>len\<close> counts code
  points. A string is therefore a list of code points, each a natural number; ASCII
  literals are written with \<open>asc\<close>, other literals by their code points.
\<close>

type_synonym uchar = nat
type_synonym ustr = "uchar list"

definition asc :: "string \<Rightarrow> ustr" where
  "asc s = map of_char s"

text \<open>
  \<^verbatim>\<open>str.isspace\<close>, \<^verbatim>\<open>str.strip()\<close> and the pattern class \<^verbatim>\<open>\s\<close> on \<^verbatim>\<open>str\<close> patterns
  share one table of whitespace code points.
\<close>

definition is_space :: "uchar \<Rightarrow> bool" where
  "is_space c \<longleftrightarrow>
     (0x9 \<le> c \<and> c \<le> 0xD) \<or> (0x1C \<le> c \<and> c \<le> 0x20) \<or> c = 0x85 \<or> c = 0xA0 \<or>
     c = 0x1680 \<or> (0x2000 \<le> c \<and> c \<le> 0x200A) \<or> c = 0x2028 \<or> c = 0x2029 \<or>
     c = 0x202F \<or> c = 0x205F \<or> c = 0x3000"

definition strip :: "ustr \<Rightarrow> ustr" where
  "strip s = rev (dropWhile is_space (rev (dropWhile is_space s)))"

text \<open>
  The decimal digits of Unicode beyond ASCII depend on the Unicode version of the
  interpreter. That table is a parameter: it gives the digit value of a code point from
  128 on that is a decimal digit. The ASCII part is fixed.
\<close>

type_synonym udb = "uchar \<Rightarrow> nat option"

definition decimal_value :: "udb \<Rightarrow> uchar \<Rightarrow> nat option" where
  "decimal_value db c =
     (if 48 \<le> c \<and> c \<le> 57 then Some (c - 48) else if c < 128 then None else db c)"

definition is_digit :: "udb \<Rightarrow> uchar \<Rightarrow> bool" where
  "is_digit db c \<longleftrightarrow> decimal_value db c \<noteq> None"

text \<open>\<^verbatim>\<open>int(s)\<close> on a string of decimal digits, as \<^verbatim>\<open>\d+\<close> captures it.\<close>

definition py_int :: "udb \<Rightarrow> ustr \<Rightarrow> int" where
  "py_int db s = int (foldl (\<lambda>a c. 10 * a + (case decimal_value db c of Some d \<Rightarrow> d | None \<Rightarrow> 0)) 0 s)"

text \<open>\<^verbatim>\<open>str(n)\<close> of an integer: its decimal digits, after a minus sign when negative.\<close>

function str_nat :: "nat \<Rightarrow> ustr" where
  "str_nat n = (if n < 10 then [48 + n] else str_nat (n div 10) @ [48 + n mod 10])"
  by pat_completeness auto
termination
  by (relation "measure id") auto

declare str_nat.simps [simp del]

definition py_str :: "int \<Rightarrow> ustr" where
  "py_str i = (if i < 0 then 45 # str_nat (nat (- i)) else str_nat (nat i))"

text \<open>\<^verbatim>\<open>sep.join(xs)\<close>.\<close>

fun join :: "ustr \<Rightarrow> ustr list \<Rightarrow> ustr" where
  "join sep [] = []"
| "join sep [x] = x"
| "join sep (x # y # ys) = x @ sep @ join sep (y # ys)"

section \<open>Regular expressions\<close>

text \<open>
  The patterns of the script use literals, character sets, the classes \<^verbatim>\<open>\s\<close>,
  \<^verbatim>\<open>\S\<close>, \<^verbatim>\<open>\d\<close> and \<^verbatim>\<open>.\<close>, the quantifiers \<^verbatim>\<open>* + ? +? *?\<close> on a single character
  set, one capturing group, non-capturing alternation and \<^verbatim>\<open>$\<close>. A pattern is a list of
  items. Matching follows the backtracking order of \<^verbatim>\<open>re\<close>: an item maps a position to
  the list of positions it can end at, most preferred first, and the match found is the
  first of the list for the whole pattern.
\<close>

datatype cclass = CLit uchar | CRange uchar uchar | CSpace | CNonSpace | CDigit

datatype cset = In "cclass list" | NotIn "cclass list" | Dot

datatype atom =
    One cset | Star cset | Plus cset | Opt cset | PlusLazy cset | StarLazy cset
  | GroupOpen | GroupClose | Dollar

datatype item = A atom | Alt "atom list list"

type_synonym regex = "item list"

text \<open>
  Under \<^verbatim>\<open>re.IGNORECASE\<close> a cased ASCII letter of the pattern matches its two cases and
  the code points whose lower case it is: U+0130 and U+0131 for i, U+212A for k, U+017F
  for s. An uncased literal matches itself only. The sets compiled with the flag hold no
  cased letter and no range.
\<close>

definition is_ascii_letter :: "uchar \<Rightarrow> bool" where
  "is_ascii_letter c \<longleftrightarrow> (65 \<le> c \<and> c \<le> 90) \<or> (97 \<le> c \<and> c \<le> 122)"

definition fold_case :: "uchar \<Rightarrow> uchar" where
  "fold_case c =
     (if 65 \<le> c \<and> c \<le> 90 then c + 32
      else if c = 0x130 \<or> c = 0x131 then 105
      else if c = 0x212A then 107
      else if c = 0x17F then 115
      else c)"

definition lit_match :: "bool \<Rightarrow> uchar \<Rightarrow> uchar \<Rightarrow> bool" where
  "lit_match ic l c \<longleftrightarrow> c = l \<or> (ic \<and> is_ascii_letter l \<and> fold_case c = fold_case l)"

fun cclass_match :: "udb \<Rightarrow> bool \<Rightarrow> cclass \<Rightarrow> uchar \<Rightarrow> bool" where
  "cclass_match db ic (CLit l) c = lit_match ic l c"
| "cclass_match db ic (CRange a b) c = (a \<le> c \<and> c \<le> b)"
| "cclass_match db ic CSpace c = is_space c"
| "cclass_match db ic CNonSpace c = (\<not> is_space c)"
| "cclass_match db ic CDigit c = is_digit db c"

fun cset_match :: "udb \<Rightarrow> bool \<Rightarrow> cset \<Rightarrow> uchar \<Rightarrow> bool" where
  "cset_match db ic (In cs) c = list_ex (\<lambda>k. cclass_match db ic k c) cs"
| "cset_match db ic (NotIn cs) c = (\<not> list_ex (\<lambda>k. cclass_match db ic k c) cs)"
| "cset_match db ic Dot c = (c \<noteq> 10)"

text \<open>
  A greedy repetition prefers the longest run and gives characters back one at a time; a
  lazy one prefers the shortest and takes one more at a time. Both return the rests of the
  subject after the run.
\<close>

fun greedy :: "(uchar \<Rightarrow> bool) \<Rightarrow> ustr \<Rightarrow> ustr list" where
  "greedy P [] = [[]]"
| "greedy P (c # r) = (if P c then greedy P r @ [c # r] else [c # r])"

fun lazy :: "(uchar \<Rightarrow> bool) \<Rightarrow> ustr \<Rightarrow> ustr list" where
  "lazy P [] = [[]]"
| "lazy P (c # r) = (c # r) # (if P c then lazy P r else [])"

text \<open>
  A matching state: the rest of the subject, the rest at which the group was opened, and
  the text of the group once closed.
\<close>

type_synonym mstate = "ustr \<times> ustr \<times> ustr"

fun m_atom :: "udb \<Rightarrow> bool \<Rightarrow> atom \<Rightarrow> mstate \<Rightarrow> mstate list" where
  "m_atom db ic (One cs) (s, g) =
     (case s of [] \<Rightarrow> [] | c # r \<Rightarrow> if cset_match db ic cs c then [(r, g)] else [])"
| "m_atom db ic (Star cs) (s, g) = map (\<lambda>r. (r, g)) (greedy (cset_match db ic cs) s)"
| "m_atom db ic (Plus cs) (s, g) =
     (case s of [] \<Rightarrow> []
      | c # r \<Rightarrow> if cset_match db ic cs c
                then map (\<lambda>r. (r, g)) (greedy (cset_match db ic cs) r) else [])"
| "m_atom db ic (Opt cs) (s, g) =
     (case s of [] \<Rightarrow> [(s, g)]
      | c # r \<Rightarrow> if cset_match db ic cs c then [(r, g), (s, g)] else [(s, g)])"
| "m_atom db ic (PlusLazy cs) (s, g) =
     (case s of [] \<Rightarrow> []
      | c # r \<Rightarrow> if cset_match db ic cs c
                then map (\<lambda>r. (r, g)) (lazy (cset_match db ic cs) r) else [])"
| "m_atom db ic (StarLazy cs) (s, g) = map (\<lambda>r. (r, g)) (lazy (cset_match db ic cs) s)"
| "m_atom db ic GroupOpen (s, g) = [(s, (s, snd g))]"
| "m_atom db ic GroupClose (s, g) = [(s, (fst g, take (length (fst g) - length s) (fst g)))]"
| "m_atom db ic Dollar (s, g) = (if s = [] \<or> s = [10] then [(s, g)] else [])"

primrec m_atoms :: "udb \<Rightarrow> bool \<Rightarrow> atom list \<Rightarrow> mstate \<Rightarrow> mstate list" where
  "m_atoms db ic [] = (\<lambda>st. [st])"
| "m_atoms db ic (a # as) = (\<lambda>st. concat (map (m_atoms db ic as) (m_atom db ic a st)))"

fun m_item :: "udb \<Rightarrow> bool \<Rightarrow> item \<Rightarrow> mstate \<Rightarrow> mstate list" where
  "m_item db ic (A a) st = m_atom db ic a st"
| "m_item db ic (Alt alts) st = concat (map (\<lambda>alt. m_atoms db ic alt st) alts)"

primrec m_items :: "udb \<Rightarrow> bool \<Rightarrow> regex \<Rightarrow> mstate \<Rightarrow> mstate list" where
  "m_items db ic [] = (\<lambda>st. [st])"
| "m_items db ic (i # is) = (\<lambda>st. concat (map (m_items db ic is) (m_item db ic i st)))"

text \<open>
  A match of the pattern at the start of \<open>s\<close>: the text of group 1 and the rest of the
  subject after the match.
\<close>

definition match_at :: "udb \<Rightarrow> bool \<Rightarrow> regex \<Rightarrow> ustr \<Rightarrow> (ustr \<times> ustr) option" where
  "match_at db ic p s =
     (case m_items db ic p (s, ([], [])) of
        [] \<Rightarrow> None
      | (r, (_, grp)) # _ \<Rightarrow> Some (grp, r))"

text \<open>\<^verbatim>\<open>re.search(p, s)\<close>: the match at the leftmost position that has one; group 1 of it.\<close>

fun search :: "udb \<Rightarrow> bool \<Rightarrow> regex \<Rightarrow> ustr \<Rightarrow> ustr option" where
  "search db ic p [] = map_option fst (match_at db ic p [])"
| "search db ic p (c # cs) =
     (case match_at db ic p (c # cs) of
        Some (grp, r) \<Rightarrow> Some grp
      | None \<Rightarrow> search db ic p cs)"

text \<open>
  \<^verbatim>\<open>re.finditer(p, s)\<close>, as the list of group 1 of each match. The scan goes through the
  positions from the left; after a match of \<open>n\<close> characters it goes on at the end of the
  match, skipping the \<open>n - 1\<close> positions inside it.
\<close>

fun finditer_from :: "udb \<Rightarrow> bool \<Rightarrow> regex \<Rightarrow> nat \<Rightarrow> ustr \<Rightarrow> ustr list" where
  "finditer_from db ic p skip [] =
     (if skip = 0 then (case match_at db ic p [] of Some (grp, r) \<Rightarrow> [grp] | None \<Rightarrow> []) else [])"
| "finditer_from db ic p skip (c # cs) =
     (if skip > 0 then finditer_from db ic p (skip - 1) cs
      else (case match_at db ic p (c # cs) of
              None \<Rightarrow> finditer_from db ic p 0 cs
            | Some (grp, r) \<Rightarrow> grp # finditer_from db ic p (length (c # cs) - length r - 1) cs))"

definition finditer :: "udb \<Rightarrow> bool \<Rightarrow> regex \<Rightarrow> ustr \<Rightarrow> ustr list" where
  "finditer db ic p s = finditer_from db ic p 0 s"

text \<open>\<^verbatim>\<open>re.sub(p, '', s)\<close>: the subject without its matches.\<close>

fun sub_from :: "udb \<Rightarrow> bool \<Rightarrow> regex \<Rightarrow> nat \<Rightarrow> ustr \<Rightarrow> ustr" where
  "sub_from db ic p skip [] = []"
| "sub_from db ic p skip (c # cs) =
     (if skip > 0 then sub_from db ic p (skip - 1) cs
      else (case match_at db ic p (c # cs) of
              None \<Rightarrow> c # sub_from db ic p 0 cs
            | Some (grp, r) \<Rightarrow>
                if length r = length (c # cs) then c # sub_from db ic p 0 cs
                else sub_from db ic p (length (c # cs) - length r - 1) cs))"

definition sub_empty :: "udb \<Rightarrow> bool \<Rightarrow> regex \<Rightarrow> ustr \<Rightarrow> ustr" where
  "sub_empty db ic p s = sub_from db ic p 0 s"

text \<open>Pattern notation: a literal string, one literal, a set, and quantified sets.\<close>

definition lit :: "ustr \<Rightarrow> regex" where
  "lit s = map (\<lambda>c. A (One (In [CLit c]))) s"

definition lits :: "string \<Rightarrow> regex" where
  "lits s = lit (asc s)"

definition any_of :: "ustr \<Rightarrow> cset" where
  "any_of s = In (map CLit s)"

definition none_of :: "ustr \<Rightarrow> cset" where
  "none_of s = NotIn (map CLit s)"

abbreviation spaces :: item where
  "spaces \<equiv> A (Star (In [CSpace]))"

section \<open>Data model\<close>

text \<open>
  The two classes of the script. The fields \<^verbatim>\<open>title\<close> and \<^verbatim>\<open>video_url\<close> of an episode
  are \<open>ep_title\<close> and \<open>ep_video_url\<close>, and the \<^verbatim>\<open>id\<close> of a record is \<open>video_id\<close>.
\<close>

record Episode =
  num :: int
  ep_title :: ustr
  ep_video_url :: ustr

record VideoInfo =
  video_id :: ustr
  title :: ustr
  author :: ustr
  description :: ustr
  cover_url :: ustr
  video_url :: ustr
  tags :: "ustr list"
  episodes :: "Episode list"
  page_url :: ustr
  error :: "ustr option"

section \<open>extract_author\<close>

text \<open>The sentinel author, U+672A U+5206 U+7C7B.\<close>

definition uncategorized :: ustr where
  "uncategorized = [0x672A, 0x5206, 0x7C7B]"

text \<open>
  The category marker that opens each of the four patterns:
  U+3010, one or more characters other than U+3011, U+3011, then \<^verbatim>\<open>\s*\<close>.
\<close>

definition category_prefix :: regex where
  "category_prefix =
     [A (One (any_of [0x3010])), A (Plus (none_of [0x3011])), A (One (any_of [0x3011])), spaces]"

text \<open>
  The four patterns, in the order of the source. After the category marker:
  \<^enum> a lazy group of characters other than U+300C, U+FF08, U+3010 and newline, then
    \<^verbatim>\<open>\s*\<close> and U+300C or U+FF08;
  \<^enum> a lazy group of characters other than \<^verbatim>\<open>-\<close>, U+2013 and newline, then \<^verbatim>\<open>\s*\<close>, a
    dash, \<^verbatim>\<open>\s*\<close>, an optional U+7B2C and a digit;
  \<^enum> a lazy group of \<^verbatim>\<open>[A-Za-z0-9_\-\s]\<close>, then \<^verbatim>\<open>\s*$\<close> or \<^verbatim>\<open>\s*\<close> and a dash;
  \<^enum> a greedy group of characters other than whitespace, U+300C, U+3010, \<^verbatim>\<open>-\<close> and
    U+FF08.
\<close>

definition author_patterns :: "regex list" where
  "author_patterns =
     [category_prefix @
        [A GroupOpen, A (PlusLazy (none_of [0x300C, 0xFF08, 0x3010, 10])), A GroupClose,
         spaces, A (One (any_of [0x300C, 0xFF08]))],
      category_prefix @
        [A GroupOpen, A (PlusLazy (none_of [45, 0x2013, 10])), A GroupClose,
         spaces, A (One (any_of [45, 0x2013])), spaces,
         A (Opt (any_of [0x7B2C])), A (One (In [CDigit]))],
      category_prefix @
        [A GroupOpen,
         A (PlusLazy (In [CRange 65 90, CRange 97 122, CRange 48 57, CLit 95, CLit 45, CSpace])),
         A GroupClose,
         Alt [[Star (In [CSpace]), Dollar], [Star (In [CSpace]), One (any_of [45, 0x2013])]]],
      category_prefix @
        [A GroupOpen,
         A (Plus (NotIn [CSpace, CLit 0x300C, CLit 0x3010, CLit 45, CLit 0xFF08])),
         A GroupClose]]"

text \<open>
  The loop over the patterns: the first pattern that matches and whose stripped group has
  between 2 and 50 characters gives the author.
\<close>

fun first_author :: "udb \<Rightarrow> regex list \<Rightarrow> ustr \<Rightarrow> ustr" where
  "first_author db [] t = uncategorized"
| "first_author db (p # ps) t =
     (case search db False p t of
        Some g \<Rightarrow>
          (let a = strip g in
           if 2 \<le> length a \<and> length a \<le> 50 then a else first_author db ps t)
      | None \<Rightarrow> first_author db ps t)"

definition extract_author :: "udb \<Rightarrow> ustr \<Rightarrow> ustr" where
  "extract_author db t = first_author db author_patterns t"

section \<open>extract_from_page\<close>

text \<open>
  What the script takes from its runtime and from the network:
  \<^item> \<open>digits\<close>: the decimal digits of Unicode beyond ASCII;
  \<^item> \<open>str_hash\<close>: the built-in \<^verbatim>\<open>hash\<close> on strings, whose values are those of the
    running process;
  \<^item> \<open>set_order\<close>: the order in which a \<^verbatim>\<open>set\<close> of strings is iterated, given the
    elements in the order they were added;
  \<^item> \<open>http_get\<close>: the outcome of \<^verbatim>\<open>requests.get\<close>, \<^verbatim>\<open>raise_for_status\<close> and
    \<^verbatim>\<open>response.text\<close> for a URL at an attempt: the text of the exception raised, or
    the document.
  Pauses and console output are left out. \<^verbatim>\<open>int\<close> is the unbounded conversion of the
  language; the interpreter's optional bound on the number of digits is not modelled.
\<close>

record runtime =
  digits :: udb
  str_hash :: "ustr \<Rightarrow> int"
  set_order :: "ustr list \<Rightarrow> ustr list"
  http_get :: "ustr \<Rightarrow> nat \<Rightarrow> ustr + ustr"

text \<open>
  \<^verbatim>\<open>list(video_urls)\<close>: the elements of the set, each once, in the order of the runtime.
  An order that is not a rearrangement of the elements is not an order of that set and is
  replaced by the order of insertion.
\<close>

definition list_of_set :: "runtime \<Rightarrow> ustr list \<Rightarrow> ustr list" where
  "list_of_set rt xs =
     (let ys = set_order rt xs in if distinct ys \<and> set ys = set xs then ys else xs)"

text \<open>\<^verbatim>\<open>s.add(x)\<close> on a set kept as the list of its elements in the order added.\<close>

definition set_add :: "ustr list \<Rightarrow> ustr \<Rightarrow> ustr list" where
  "set_add xs x = (if x \<in> set xs then xs else xs @ [x])"

text \<open>The pattern \<^verbatim>\<open>/archives/(\d+)\.html\<close> of the record id.\<close>

definition archive_pattern :: regex where
  "archive_pattern =
     lits ''/archives/'' @ [A GroupOpen, A (Plus (In [CDigit])), A GroupClose] @ lits ''.html''"

definition video_id_of :: "runtime \<Rightarrow> ustr \<Rightarrow> ustr" where
  "video_id_of rt url =
     (case search (digits rt) False archive_pattern url of
        Some g \<Rightarrow> g
      | None \<Rightarrow> take 8 (py_str (str_hash rt url)))"

text \<open>Pieces shared by the patterns of the page: the two quote characters.\<close>

definition dq :: ustr where
  "dq = [34]"

definition quotes :: ustr where
  "quotes = [34, 39]"

definition not_gt :: item where
  "not_gt = A (Star (none_of (asc ''>'')))"

definition not_dq :: item where
  "not_dq = A (Star (none_of dq))"

definition group_plus :: "cset \<Rightarrow> regex" where
  "group_plus cs = [A GroupOpen, A (Plus cs), A GroupClose]"

text \<open>
  A tag with an attribute: \<^verbatim>\<open><meta[^>]*property="og:title"[^>]*content="([^"]+)"\<close> is
  \<open>attr_pattern ''<meta'' ''property='' ''og:title'' ''content=''\<close>.
\<close>

definition attr_pattern :: "string \<Rightarrow> string \<Rightarrow> string \<Rightarrow> string \<Rightarrow> regex" where
  "attr_pattern tag key val target =
     lits tag @ [not_gt] @ lits key @ lit dq @ lits val @ lit dq @ [not_gt] @
     lits target @ lit dq @ group_plus (none_of dq) @ lit dq"

text \<open>
  A tag with a class: \<^verbatim>\<open><h1[^>]*class="[^"]*article-title[^"]*"[^>]*>\<close> is
  \<open>class_pattern ''<h1'' ''article-title''\<close> followed by \<^verbatim>\<open>>\<close>.
\<close>

definition class_pattern :: "string \<Rightarrow> string \<Rightarrow> regex" where
  "class_pattern tag cls =
     lits tag @ [not_gt] @ lits ''class='' @ lit dq @ [not_dq] @ lits cls @ [not_dq] @
     lit dq @ [not_gt]"

definition title_patterns :: "regex list" where
  "title_patterns =
     [class_pattern ''<h1'' ''article-title'' @ lits ''>'' @
        group_plus (none_of (asc ''<'')) @ lits ''</h1>'',
      attr_pattern ''<meta'' ''property='' ''og:title'' ''content='',
      lits ''<title>'' @ group_plus (none_of (asc ''<'')) @ lits ''</title>'']"

text \<open>
  The branding suffix removed from a title: \<^verbatim>\<open>\s*[-|]\s*\<close>, the four characters
  U+54AA U+5494 U+6620 U+9601, then \<^verbatim>\<open>.*$\<close>.
\<close>

definition brand_suffix :: regex where
  "brand_suffix =
     [spaces, A (One (any_of [45, 124])), spaces] @ lit [0x54AA, 0x5494, 0x6620, 0x9601] @
     [A (Star Dot), A Dollar]"

fun first_title :: "udb \<Rightarrow> regex list \<Rightarrow> ustr \<Rightarrow> ustr" where
  "first_title db [] html = []"
| "first_title db (p # ps) html =
     (case search db True p html of
        Some g \<Rightarrow> sub_empty db False brand_suffix (strip g)
      | None \<Rightarrow> first_title db ps html)"

definition lazy_group_any :: regex where
  "lazy_group_any = [A GroupOpen, A (StarLazy (In [CSpace, CNonSpace])), A GroupClose]"

definition desc_patterns :: "regex list" where
  "desc_patterns =
     [attr_pattern ''<meta'' ''name='' ''description'' ''content='',
      attr_pattern ''<meta'' ''property='' ''og:description'' ''content='',
      class_pattern ''<div'' ''joe_detail__abstract'' @ lits ''>'' @ lazy_group_any @
        lits ''</div>'']"

text \<open>The markup removed from a description: \<^verbatim>\<open><[^>]+>\<close>.\<close>

definition markup_tag :: regex where
  "markup_tag = lits ''<'' @ [A (Plus (none_of (asc ''>'')))] @ lits ''>''"

fun first_description :: "udb \<Rightarrow> regex list \<Rightarrow> ustr \<Rightarrow> ustr" where
  "first_description db [] html = []"
| "first_description db (p # ps) html =
     (case search db True p html of
        Some g \<Rightarrow> strip (sub_empty db False markup_tag g)
      | None \<Rightarrow> first_description db ps html)"

definition article_tags_pattern :: regex where
  "article_tags_pattern =
     class_pattern ''<div'' ''article-tags'' @ lits ''>'' @ lazy_group_any @ lits ''</div>''"

text \<open>The pattern of one tag: \<^verbatim>\<open><a[^>]*>#\s*([^<]+)</a>\<close>.\<close>

definition tag_pattern :: regex where
  "tag_pattern =
     lits ''<a'' @ [not_gt] @ lits ''>#'' @ [spaces] @ group_plus (none_of (asc ''<'')) @
     lits ''</a>''"

fun add_tags :: "ustr list \<Rightarrow> ustr list \<Rightarrow> ustr list" where
  "add_tags [] tgs = tgs"
| "add_tags (g # gs) tgs =
     (let tag = strip g in
      if tag \<noteq> [] \<and> tag \<notin> set tgs then add_tags gs (tgs @ [tag]) else add_tags gs tgs)"

definition extract_tags :: "udb \<Rightarrow> ustr \<Rightarrow> ustr list" where
  "extract_tags db html =
     (case search db True article_tags_pattern html of
        Some tag_content \<Rightarrow> add_tags (finditer db True tag_pattern tag_content) []
      | None \<Rightarrow> [])"

definition cover_patterns :: "regex list" where
  "cover_patterns =
     [attr_pattern ''<meta'' ''property='' ''og:image'' ''content='',
      attr_pattern ''<meta'' ''name='' ''twitter:image'' ''content='',
      class_pattern ''<img'' ''joe_detail__thumb'' @ lits ''src='' @ lit dq @
        group_plus (none_of dq) @ lit dq]"

fun first_cover :: "udb \<Rightarrow> regex list \<Rightarrow> ustr \<Rightarrow> ustr" where
  "first_cover db [] html = []"
| "first_cover db (p # ps) html =
     (case search db True p html of
        Some g \<Rightarrow> g
      | None \<Rightarrow> first_cover db ps html)"

text \<open>
  \<^verbatim>\<open>(?:mp4|mkv|webm|avi|mov|m4v|flv|wmv|ts|m3u8)\<close>, the alternatives in the order of the
  source.
\<close>

definition literal_atoms :: "string \<Rightarrow> atom list" where
  "literal_atoms s = map (\<lambda>c. One (In [CLit c])) (asc s)"

definition video_extensions :: item where
  "video_extensions =
     Alt (map literal_atoms
       [''mp4'', ''mkv'', ''webm'', ''avi'', ''mov'', ''m4v'', ''flv'', ''wmv'', ''ts'', ''m3u8''])"

definition not_quote :: cset where
  "not_quote = none_of quotes"

definition a_quote :: item where
  "a_quote = A (One (any_of quotes))"

text \<open>\<^verbatim>\<open>https?://\<close>\<close>

definition http_scheme :: regex where
  "http_scheme = lits ''http'' @ [A (Opt (any_of (asc ''s'')))] @ lits ''://''"

text \<open>
  The three shapes of a media URL, each between quotes:
  \<^enum> \<^verbatim>\<open>https?://cdn\.mikiacg\.vip/[^"']+\.EXT\<close>;
  \<^enum> \<^verbatim>\<open>https?://[^"']*mikiacg[^"']*\/[^"']+\.EXT\<close>;
  \<^enum> after \<^verbatim>\<open>url\s*:\s*\<close>, \<^verbatim>\<open>https?://[^"']+\.EXT\<close>.
\<close>

definition video_patterns :: "regex list" where
  "video_patterns =
     [[a_quote, A GroupOpen] @ http_scheme @ lits ''cdn.mikiacg.vip/'' @
        [A (Plus not_quote)] @ lits ''.'' @ [video_extensions, A GroupClose, a_quote],
      [a_quote, A GroupOpen] @ http_scheme @ [A (Star not_quote)] @ lits ''mikiacg'' @
        [A (Star not_quote)] @ lits ''/'' @ [A (Plus not_quote)] @ lits ''.'' @
        [video_extensions, A GroupClose, a_quote],
      lits ''url'' @ [spaces] @ lits '':'' @ [spaces, a_quote, A GroupOpen] @ http_scheme @
        [A (Plus not_quote)] @ lits ''.'' @ [video_extensions, A GroupClose, a_quote]]"

text \<open>The set of media URLs of a document, as the list of its elements in the order added.\<close>

definition video_urls :: "udb \<Rightarrow> ustr \<Rightarrow> ustr list" where
  "video_urls db html =
     foldl set_add [] (concat (map (\<lambda>p. finditer db True p html) video_patterns))"

text \<open>The episode number of a URL: \<^verbatim>\<open>/(\d+)\.EXT$\<close>.\<close>

definition episode_pattern :: regex where
  "episode_pattern = lits ''/'' @ group_plus (In [CDigit]) @ lits ''.'' @ [video_extensions, A Dollar]"

text \<open>The label of a numbered episode: U+7B2C, the number, U+96C6.\<close>

definition episode_title :: "int \<Rightarrow> ustr" where
  "episode_title n = [0x7B2C] @ py_str n @ [0x96C6]"

text \<open>The label of the single unnumbered episode: U+6B63 U+7247.\<close>

definition feature_title :: ustr where
  "feature_title = [0x6B63, 0x7247]"

fun add_episodes :: "udb \<Rightarrow> ustr list \<Rightarrow> Episode list \<Rightarrow> Episode list" where
  "add_episodes db [] eps = eps"
| "add_episodes db (url # urls) eps =
     (case search db True episode_pattern url of
        Some g \<Rightarrow>
          (let n = py_int db g in
           if n > 0 \<and> \<not> list_ex (\<lambda>e. num e = n) eps
           then add_episodes db urls
                  (eps @ [\<lparr>num = n, ep_title = episode_title n, ep_video_url = url\<rparr>])
           else add_episodes db urls eps)
      | None \<Rightarrow> add_episodes db urls eps)"

text \<open>
  The episodes of a page from the list of its media URLs: the numbered ones, or one
  episode 1 for the first URL when none is numbered, sorted by number.
\<close>

definition resolve_episodes :: "udb \<Rightarrow> ustr list \<Rightarrow> Episode list" where
  "resolve_episodes db unique_video_urls =
     (let eps = add_episodes db unique_video_urls [];
          eps' =
            (if eps = [] \<and> unique_video_urls \<noteq> []
             then eps @ [\<lparr>num = 1, ep_title = feature_title,
                            ep_video_url = hd unique_video_urls\<rparr>]
             else eps)
      in sort_key num eps')"

text \<open>The body of an attempt once the document is fetched.\<close>

definition parse_page :: "runtime \<Rightarrow> ustr \<Rightarrow> ustr \<Rightarrow> ustr \<Rightarrow> VideoInfo option" where
  "parse_page rt url vid html =
     (let db = digits rt;
          t = first_title db title_patterns html
      in if t = [] then None
         else
           (let d = first_description db desc_patterns html;
                tgs = extract_tags db html;
                cover = first_cover db cover_patterns html;
                unique_video_urls = list_of_set rt (video_urls db html);
                eps = resolve_episodes db unique_video_urls;
                a = extract_author db t
            in Some \<lparr>video_id = vid, title = t, author = a, description = d,
                      cover_url = cover,
                      video_url = (if unique_video_urls \<noteq> [] then hd unique_video_urls else []),
                      tags = tgs, episodes = eps, page_url = url, error = None\<rparr>))"

text \<open>The record of a page whose fetch failed for the last time.\<close>

definition failure_record :: "ustr \<Rightarrow> ustr \<Rightarrow> ustr \<Rightarrow> VideoInfo" where
  "failure_record url vid e =
     \<lparr>video_id = vid, title = [], author = [], description = [], cover_url = [],
      video_url = [], tags = [], episodes = [], page_url = url, error = Some e\<rparr>"

text \<open>The loop \<^verbatim>\<open>for attempt in range(3)\<close>, from attempt \<open>attempt\<close> on.\<close>

function attempts :: "runtime \<Rightarrow> ustr \<Rightarrow> ustr \<Rightarrow> nat \<Rightarrow> VideoInfo option" where
  "attempts rt url vid attempt =
     (if attempt < 3 then
        (case http_get rt url attempt of
           Inr html \<Rightarrow> parse_page rt url vid html
         | Inl e \<Rightarrow>
             if attempt = 2 then Some (failure_record url vid e)
             else attempts rt url vid (attempt + 1))
      else None)"
  by pat_completeness auto
termination
  by (relation "measure (\<lambda>(rt, url, vid, attempt). 3 - attempt)") auto

declare attempts.simps [simp del]

definition extract_from_page :: "runtime \<Rightarrow> ustr \<Rightarrow> VideoInfo option" where
  "extract_from_page rt url = attempts rt url (video_id_of rt url) 0"

section \<open>generate_import_text\<close>

text \<open>
  The filter of the valid records. A field is tested for its truth value: a string counts
  when it is not empty, \<^verbatim>\<open>error\<close> when it is neither \<^verbatim>\<open>None\<close> nor the empty string.
\<close>

definition is_valid :: "VideoInfo \<Rightarrow> bool" where
  "is_valid v \<longleftrightarrow>
     title v \<noteq> [] \<and> (error v = None \<or> error v = Some []) \<and>
     (video_url v \<noteq> [] \<or> episodes v \<noteq> [])"

text \<open>
  The dictionary \<^verbatim>\<open>grouped\<close> keeps its keys in the order of insertion: it is the list of
  its items in that order.
\<close>

definition group_key :: "VideoInfo \<Rightarrow> ustr" where
  "group_key v = (if author v \<noteq> [] then author v else uncategorized)"

definition group_add ::
  "(ustr \<times> VideoInfo list) list \<Rightarrow> VideoInfo \<Rightarrow> (ustr \<times> VideoInfo list) list" where
  "group_add grouped v =
     (let a = group_key v;
          grouped' = (if a \<notin> set (map fst grouped) then grouped @ [(a, [])] else grouped)
      in map (\<lambda>(k, vs). if k = a then (k, vs @ [v]) else (k, vs)) grouped')"

text \<open>
  The labels of the import format, each ending in the full-width colon U+FF1A:
  collection, title, description, cover, video and tags.
\<close>

definition label_collection :: ustr where
  "label_collection = [0x5408, 0x96C6, 0xFF1A]"

definition label_title :: ustr where
  "label_title = [0x6807, 0x9898, 0xFF1A]"

definition label_description :: ustr where
  "label_description = [0x63CF, 0x8FF0, 0xFF1A]"

definition label_cover :: ustr where
  "label_cover = [0x5C01, 0x9762, 0xFF1A]"

definition label_video :: ustr where
  "label_video = [0x89C6, 0x9891, 0xFF1A]"

definition label_tags :: ustr where
  "label_tags = [0x6807, 0x7B7E, 0xFF1A]"

text \<open>
  The lines of one block: the title line \<open>t\<close>, the description and the cover when not
  empty, the media URL \<open>u\<close>, the tags when there are some, and an empty line. Both
  branches of the source append these lines.
\<close>

definition block :: "VideoInfo \<Rightarrow> ustr \<Rightarrow> ustr \<Rightarrow> ustr list" where
  "block v t u =
     [label_title @ t] @
     (if description v \<noteq> [] then [label_description @ description v] else []) @
     (if cover_url v \<noteq> [] then [label_cover @ cover_url v] else []) @
     [label_video @ u] @
     (if tags v \<noteq> [] then [label_tags @ join (asc '','') (tags v)] else []) @
     [[]]"

text \<open>The state of the loops: the lines so far and \<^verbatim>\<open>video_count\<close>.\<close>

type_synonym out = "ustr list \<times> nat"

fun emit_episodes :: "VideoInfo \<Rightarrow> Episode list \<Rightarrow> out \<Rightarrow> out" where
  "emit_episodes v [] st = st"
| "emit_episodes v (ep # eps) (lines, n) =
     emit_episodes v eps
       (lines @ block v (title v @ asc '' - '' @ ep_title ep) (ep_video_url ep), n + 1)"

fun emit_video :: "VideoInfo \<Rightarrow> out \<Rightarrow> out" where
  "emit_video v (lines, n) =
     (if length (episodes v) > 1
      then emit_episodes v (filter (\<lambda>ep. ep_video_url ep \<noteq> []) (episodes v)) (lines, n)
      else if video_url v \<noteq> [] then (lines @ block v (title v) (video_url v), n + 1)
      else (lines, n))"

fun emit_videos :: "VideoInfo list \<Rightarrow> out \<Rightarrow> out" where
  "emit_videos [] st = st"
| "emit_videos (v # vs) st = emit_videos vs (emit_video v st)"

fun emit_groups :: "(ustr \<times> VideoInfo list) list \<Rightarrow> out \<Rightarrow> out" where
  "emit_groups [] st = st"
| "emit_groups ((a, author_videos) # gs) (lines, n) =
     emit_groups gs (emit_videos author_videos (lines @ [label_collection @ a, []], n))"

definition valid_videos :: "VideoInfo list \<Rightarrow> VideoInfo list" where
  "valid_videos videos = filter is_valid videos"

definition grouped_videos :: "VideoInfo list \<Rightarrow> (ustr \<times> VideoInfo list) list" where
  "grouped_videos videos = foldl group_add [] (valid_videos videos)"

text \<open>
  \<^verbatim>\<open>sorted(grouped.items())\<close> compares the items as pairs; the keys of a dictionary differ,
  so the order is that of the keys, strings compared code point by code point.
\<close>

definition import_lines :: "VideoInfo list \<Rightarrow> out" where
  "import_lines videos = emit_groups (sort_key fst (grouped_videos videos)) ([], 0)"

definition generate_import_text :: "VideoInfo list \<Rightarrow> ustr \<times> nat" where
  "generate_import_text videos =
     (case import_lines videos of (lines, video_count) \<Rightarrow> (join [10] lines, video_count))"

section \<open>Vocabulary of the properties\<close>

text \<open>
  A rule of \<open>extract_author\<close> passes on a title when its pattern matches and the stripped
  group has between 2 and 50 characters.
\<close>

definition rule_passes :: "udb \<Rightarrow> regex \<Rightarrow> ustr \<Rightarrow> bool" where
  "rule_passes db p t \<longleftrightarrow>
     (case search db False p t of
        Some g \<Rightarrow> 2 \<le> length (strip g) \<and> length (strip g) \<le> 50
      | None \<Rightarrow> False)"

text \<open>
  The title U+3010 U+6F2B U+753B U+3011 U+5F20 U+4E09 U+300C U+7B2C U+4E00 U+8BDD U+3011
  and the author U+5F20 U+4E09 expected for it.
\<close>

definition example_title :: ustr where
  "example_title =
     [0x3010, 0x6F2B, 0x753B, 0x3011, 0x5F20, 0x4E09, 0x300C, 0x7B2C, 0x4E00, 0x8BDD, 0x3011]"

definition example_author :: ustr where
  "example_author = [0x5F20, 0x4E09]"

text \<open>
  The episode number a URL carries before its extension, and whether it is a positive one.
\<close>

definition episode_number :: "udb \<Rightarrow> ustr \<Rightarrow> int option" where
  "episode_number db url = map_option (py_int db) (search db True episode_pattern url)"


text \<open>The two kinds of episode the resolution builds.\<close>

definition numbered_episode :: "int \<Rightarrow> ustr \<Rightarrow> Episode" where
  "numbered_episode n url = \<lparr>num = n, ep_title = episode_title n, ep_video_url = url\<rparr>"

definition feature_episode :: "ustr \<Rightarrow> Episode" where
  "feature_episode url = \<lparr>num = 1, ep_title = feature_title, ep_video_url = url\<rparr>"

text \<open>
  Example inputs: media URLs on the CDN host ending in \<^verbatim>\<open>/3.mp4\<close>, \<^verbatim>\<open>/1.mp4\<close>, twice
  \<^verbatim>\<open>/5.mp4\<close> and \<^verbatim>\<open>/video.mp4\<close>, documents that hold a title and such URLs between
  quotes, and the URL of a detail page.
\<close>

definition url_3 :: ustr where
  "url_3 = asc ''https://cdn.mikiacg.vip/a/3.mp4''"

definition url_1 :: ustr where
  "url_1 = asc ''https://cdn.mikiacg.vip/a/1.mp4''"

definition doc_3_1 :: ustr where
  "doc_3_1 = asc ''<title>T</title>'' @ dq @ url_3 @ dq @ asc '' '' @ dq @ url_1 @ dq"




definition url_video :: ustr where
  "url_video = asc ''https://cdn.mikiacg.vip/video.mp4''"


definition example_page :: ustr where
  "example_page = asc ''https://tv.mikiacg.org/archives/12.html''"

text \<open>
  Example runtimes: no digits beyond ASCII, a constant hash, the iteration order \<open>order\<close>
  for sets and a network that answers every request with the document \<open>doc\<close>.
\<close>

definition ascii_digits :: udb where
  "ascii_digits c = None"

definition example_runtime :: "(ustr list \<Rightarrow> ustr list) \<Rightarrow> ustr \<Rightarrow> runtime" where
  "example_runtime order doc =
     \<lparr>digits = ascii_digits, str_hash = (\<lambda>s. 0), set_order = order, http_get = (\<lambda>url n. Inr doc)\<rparr>"

text \<open>
  Shapes of a pattern that make its group non-empty: the group opens on an atom that
  consumes a character, and no other group marker follows before or after it closes.
\<close>

fun nogroup_atom :: "atom \<Rightarrow> bool" where
  "nogroup_atom GroupOpen = False"
| "nogroup_atom GroupClose = False"
| "nogroup_atom a = True"

fun nogroup_item :: "item \<Rightarrow> bool" where
  "nogroup_item (A a) = nogroup_atom a"
| "nogroup_item (Alt alts) = list_all (list_all nogroup_atom) alts"

fun consumes :: "atom \<Rightarrow> bool" where
  "consumes (One cs) = True"
| "consumes (Plus cs) = True"
| "consumes (PlusLazy cs) = True"
| "consumes a = False"

primrec closes :: "regex \<Rightarrow> bool" where
  "closes [] = False"
| "closes (i # r) =
     (if i = A GroupClose then list_all nogroup_item r else nogroup_item i \<and> closes r)"

primrec nonempty_group :: "regex \<Rightarrow> bool" where
  "nonempty_group [] = False"
| "nonempty_group (i # r) =
     (if i = A GroupOpen then (case r of A a # r' \<Rightarrow> consumes a \<and> closes r' | _ \<Rightarrow> False)
      else nonempty_group r)"

text \<open>
  A document without any title, a runtime whose every request fails with the message
  \<open>e\<close>, and a record with a title and a media URL whose error is the empty string.
\<close>

definition doc_plain :: ustr where
  "doc_plain = asc ''<p>no heading</p>''"



text \<open>
  The report as the specification words it. The blocks of a record: one for each episode
  with a URL when there is more than one episode, else one for the primary URL when there
  is one. The lines of an author group: the header, an empty line and the blocks of its
  records. The authors of the report: the group keys of the valid records, each once, in
  ascending order.
\<close>

definition video_blocks :: "VideoInfo \<Rightarrow> ustr list list" where
  "video_blocks v =
     (if length (episodes v) > 1
      then map (\<lambda>ep. block v (title v @ asc '' - '' @ ep_title ep) (ep_video_url ep))
             (filter (\<lambda>ep. ep_video_url ep \<noteq> []) (episodes v))
      else if video_url v \<noteq> [] then [block v (title v) (video_url v)]
      else [])"

definition block_count :: "VideoInfo list \<Rightarrow> nat" where
  "block_count vs = sum_list (map (\<lambda>v. length (video_blocks v)) vs)"

definition group_lines :: "ustr \<Rightarrow> VideoInfo list \<Rightarrow> ustr list" where
  "group_lines a vs = [label_collection @ a, []] @ concat (map (\<lambda>v. concat (video_blocks v)) vs)"

definition author_group :: "VideoInfo list \<Rightarrow> ustr \<Rightarrow> VideoInfo list" where
  "author_group vs a = filter (\<lambda>v. group_key v = a) vs"

definition sorted_authors :: "VideoInfo list \<Rightarrow> ustr list" where
  "sorted_authors vs = sorted_list_of_set (group_key ` set vs)"

text \<open>The number of lines of a list that start with the video label.\<close>

definition video_lines :: "ustr list \<Rightarrow> nat" where
  "video_lines ls = length (filter (\<lambda>l. take 3 l = label_video) ls)"

text \<open>
  A valid record with two episodes that each have a URL, and a valid record without an
  episode but with a primary URL.
\<close>

definition two_episode_record :: "VideoInfo \<Rightarrow> bool" where
  "two_episode_record v \<longleftrightarrow>
     is_valid v \<and> length (episodes v) = 2 \<and> list_all (\<lambda>ep. ep_video_url ep \<noteq> []) (episodes v)"

definition single_url_record :: "VideoInfo \<Rightarrow> bool" where
  "single_url_record v \<longleftrightarrow> is_valid v \<and> episodes v = [] \<and> video_url v \<noteq> []"

text \<open>
  Example records: one valid record whose single episode has no URL and whose primary URL
  is empty, one with two episodes, and one with a primary URL only.
\<close>

definition orphan_record :: VideoInfo where
  "orphan_record =
     \<lparr>video_id = asc ''12'', title = asc ''T'', author = asc ''AB'', description = [],
      cover_url = [], video_url = [], tags = [],
      episodes = [\<lparr>num = 1, ep_title = feature_title, ep_video_url = []\<rparr>],
      page_url = example_page, error = None\<rparr>"

definition series_record :: VideoInfo where
  "series_record =
     \<lparr>video_id = asc ''12'', title = asc ''S'', author = asc ''CD'', description = [],
      cover_url = [], video_url = url_1, tags = [],
      episodes = [numbered_episode 1 url_1, numbered_episode 3 url_3],
      page_url = example_page, error = None\<rparr>"

definition movie_record :: VideoInfo where
  "movie_record =
     \<lparr>video_id = asc ''13'', title = asc ''M'', author = asc ''AB'', description = [],
      cover_url = [], video_url = url_video, tags = [], episodes = [],
      page_url = example_page, error = None\<rparr>"

text \<open>
  A numeric archive token with the digits \<open>d\<close>, and what makes \<open>d\<close> a digit string: it
  is not empty and all its characters are decimal digits.
\<close>

definition archive_token :: "ustr \<Rightarrow> ustr" where
  "archive_token d = asc ''/archives/'' @ d @ asc ''.html''"

definition digit_string :: "udb \<Rightarrow> ustr \<Rightarrow> bool" where
  "digit_string db d \<longleftrightarrow> d \<noteq> [] \<and> list_all (is_digit db) d"

text \<open>
  The digits of the token that starts a string, if one does, and of the first token of a
  string, found by a scan from the left.
\<close>

definition token_at :: "udb \<Rightarrow> ustr \<Rightarrow> ustr option" where
  "token_at db s =
     (if take 10 s = asc ''/archives/'' then
        (let r = drop 10 s; d = takeWhile (is_digit db) r
         in if d \<noteq> [] \<and> take 5 (dropWhile (is_digit db) r) = asc ''.html'' then Some d else None)
      else None)"

fun first_token :: "udb \<Rightarrow> ustr \<Rightarrow> ustr option" where
  "first_token db [] = None"
| "first_token db (c # cs) =
     (case token_at db (c # cs) of Some d \<Rightarrow> Some d | None \<Rightarrow> first_token db cs)"

text \<open>
  A runtime whose string hash is \<open>h\<close> on every string, and a page URL without a token.
\<close>

definition hashed_runtime :: "int \<Rightarrow> runtime" where
  "hashed_runtime h =
     \<lparr>digits = ascii_digits, str_hash = (\<lambda>s. h), set_order = id, http_get = (\<lambda>url n. Inr doc_plain)\<rparr>"

definition about_page :: ustr where
  "about_page = asc ''https://tv.mikiacg.org/about.html''"

section \<open>The inferred author\<close>

lemma dropWhile_id: "xs = [] \<or> \<not> P (hd xs) \<Longrightarrow> dropWhile P xs = xs"
  by (cases xs) auto

lemma last_dropWhile: "dropWhile P xs \<noteq> [] \<Longrightarrow> last (dropWhile P xs) = last xs"
  by (induction xs) (auto split: if_splits)

lemma strip_ends: "strip s = [] \<or> (\<not> is_space (hd (strip s)) \<and> \<not> is_space (last (strip s)))"
proof (cases "strip s = []")
  case True
  then show ?thesis by simp
next
  case False
  let ?d = "dropWhile is_space (rev (dropWhile is_space s))"
  from False have d: "?d \<noteq> []" by (simp add: strip_def)
  have s: "dropWhile is_space s \<noteq> []"
  proof
    assume a: "dropWhile is_space s = []"
    have "?d = []" unfolding a by simp
    with d show False by simp
  qed
  have "last (strip s) = hd ?d" using d by (simp add: strip_def last_rev)
  moreover have "\<not> is_space (hd ?d)" using d by (rule hd_dropWhile)
  moreover have "hd (strip s) = last ?d" using d by (simp add: strip_def hd_rev)
  moreover have "last ?d = last (rev (dropWhile is_space s))" using d by (rule last_dropWhile)
  moreover have "last (rev (dropWhile is_space s)) = hd (dropWhile is_space s)" using s by (simp add: last_rev)
  moreover have "\<not> is_space (hd (dropWhile is_space s))" using s by (rule hd_dropWhile)
  ultimately show ?thesis by simp
qed

lemma strip_idem: "strip (strip s) = strip s"
proof (cases "strip s = []")
  case True
  have "strip [] = []" by (simp add: strip_def)
  with True show ?thesis by simp
next
  case False
  with strip_ends [of s] have h: "\<not> is_space (hd (strip s))" and l: "\<not> is_space (last (strip s))" by auto
  have 1: "dropWhile is_space (strip s) = strip s" using h False by (simp add: dropWhile_id)
  have "hd (rev (strip s)) = last (strip s)" using False by (simp add: hd_rev)
  then have 2: "dropWhile is_space (rev (strip s)) = rev (strip s)" using l False by (simp add: dropWhile_id)
  show ?thesis unfolding strip_def [of "strip s"] 1 2 by simp
qed

lemma first_author_range:
  "first_author db ps t = uncategorized \<or>
   (\<exists>p g. p \<in> set ps \<and> search db False p t = Some g \<and> first_author db ps t = strip g \<and> 2 \<le> length (strip g) \<and> length (strip g) \<le> 50)"
  by (induction ps) (auto simp: Let_def split: option.splits)

lemma first_author_none:
  "\<forall>p \<in> set ps. \<not> rule_passes db p t \<Longrightarrow> first_author db ps t = uncategorized"
  by (induction ps) (auto simp: rule_passes_def Let_def split: option.splits)

lemma first_author_first:
  "i < length ps \<Longrightarrow> rule_passes db (ps ! i) t \<Longrightarrow> \<forall>j<i. \<not> rule_passes db (ps ! j) t \<Longrightarrow>
   Some (first_author db ps t) = map_option strip (search db False (ps ! i) t)"
proof (induction ps arbitrary: i)
  case Nil
  then show ?case by simp
next
  case (Cons p ps)
  show ?case
  proof (cases i)
    case 0
    with Cons.prems show ?thesis
      by (auto simp: rule_passes_def Let_def split: option.splits)
  next
    case (Suc k)
    with Cons.prems have k: "k < length ps" and pk: "rule_passes db (ps ! k) t"
      and nj: "\<forall>j<k. \<not> rule_passes db (ps ! j) t" and np: "\<not> rule_passes db p t"
      by auto
    from np have "first_author db (p # ps) t = first_author db ps t"
      by (auto simp: rule_passes_def Let_def split: option.splits)
    with Cons.IH [OF k pk nj] Suc show ?thesis by simp
  qed
qed

lemma example_title_author: "extract_author db example_title = example_author"
  by (simp add: extract_author_def author_patterns_def category_prefix_def example_title_def
      example_author_def any_of_def none_of_def match_at_def lit_match_def is_space_def strip_def)

lemma random_text_author: "extract_author db (asc ''random text'') = uncategorized"
  by (simp add: extract_author_def author_patterns_def category_prefix_def asc_def any_of_def
      none_of_def match_at_def lit_match_def)

text \<open>
  Claim C3. For every title the inferred author is the sentinel or has a trimmed length
  between 2 and 50. The bracketed example title gives the two-character author after its
  category marker, and \<^verbatim>\<open>random text\<close> gives the sentinel. There are four rules; the
  first of them, in the order listed, that passes gives the result, namely its stripped
  group, and when none passes the result is the sentinel.
\<close>

theorem extract_author_inferred:
  "(extract_author db t = uncategorized \<or>
      (2 \<le> length (strip (extract_author db t)) \<and> length (strip (extract_author db t)) \<le> 50)) \<and>
   extract_author db example_title = example_author \<and>
   extract_author db (asc ''random text'') = uncategorized \<and>
   length author_patterns = 4 \<and>
   (\<forall>i<4. rule_passes db (author_patterns ! i) t \<and>
           (\<forall>j<i. \<not> rule_passes db (author_patterns ! j) t) \<longrightarrow>
           Some (extract_author db t) = map_option strip (search db False (author_patterns ! i) t)) \<and>
   ((\<forall>i<4. \<not> rule_passes db (author_patterns ! i) t) \<longrightarrow> extract_author db t = uncategorized)"
proof -
  have len: "length author_patterns = 4" by (simp add: author_patterns_def)
  have range: "extract_author db t = uncategorized \<or>
      (2 \<le> length (strip (extract_author db t)) \<and> length (strip (extract_author db t)) \<le> 50)"
    using first_author_range [of db author_patterns t]
    by (auto simp: extract_author_def strip_idem)
  have first: "\<forall>i<4. rule_passes db (author_patterns ! i) t \<and>
           (\<forall>j<i. \<not> rule_passes db (author_patterns ! j) t) \<longrightarrow>
           Some (extract_author db t) = map_option strip (search db False (author_patterns ! i) t)"
    using first_author_first [of _ author_patterns db t] len
    by (auto simp: extract_author_def)
  have none: "(\<forall>i<4. \<not> rule_passes db (author_patterns ! i) t) \<longrightarrow> extract_author db t = uncategorized"
  proof
    assume a: "\<forall>i<4. \<not> rule_passes db (author_patterns ! i) t"
    have "\<forall>p \<in> set author_patterns. \<not> rule_passes db p t"
      using a len by (auto simp: in_set_conv_nth)
    then show "extract_author db t = uncategorized"
      unfolding extract_author_def by (rule first_author_none)
  qed
  from range example_title_author random_text_author len first none show ?thesis by blast
qed

text \<open>The first rule passes on the example title and gives its author.\<close>

theorem extract_author_inferred_witness:
  "rule_passes (\<lambda>c. None) (author_patterns ! 0) example_title \<and>
   Some (extract_author (\<lambda>c. None) example_title) =
     map_option strip (search (\<lambda>c. None) False (author_patterns ! 0) example_title) \<and>
   extract_author (\<lambda>c. None) example_title = example_author"
proof -
  have p: "rule_passes (\<lambda>c. None) (author_patterns ! 0) example_title"
    by (simp add: rule_passes_def author_patterns_def category_prefix_def example_title_def
      any_of_def none_of_def match_at_def lit_match_def is_space_def strip_def)
  from extract_author_inferred [of "\<lambda>c. None" example_title] p show ?thesis by auto
qed

section \<open>Evaluation of the patterns\<close>

lemmas pattern_defs = lits_def lit_def asc_def any_of_def none_of_def dq_def quotes_def not_gt_def not_dq_def
  group_plus_def attr_pattern_def class_pattern_def literal_atoms_def video_extensions_def not_quote_def
  a_quote_def http_scheme_def lazy_group_any_def

lemmas char_defs = lit_match_def is_ascii_letter_def fold_case_def is_space_def is_digit_def decimal_value_def

lemma video_urls_doc_3_1: "video_urls db doc_3_1 = [url_3, url_1]"
  by (simp add: video_urls_def video_patterns_def pattern_defs char_defs finditer_def match_at_def
      doc_3_1_def url_3_def url_1_def set_add_def)

lemma title_doc_3_1: "first_title db title_patterns doc_3_1 = asc ''T''"
  by (simp add: title_patterns_def pattern_defs char_defs match_at_def brand_suffix_def sub_empty_def strip_def
      doc_3_1_def url_3_def url_1_def)

lemma ep_3: "search db True episode_pattern url_3 = Some (asc ''3'')"
  by (simp add: episode_pattern_def pattern_defs char_defs match_at_def url_3_def)


section \<open>The episode loop\<close>

lemma add_episodes_step:
  "add_episodes db (url # urls) eps =
     add_episodes db urls
       (case episode_number db url of
          Some n \<Rightarrow> if n > 0 \<and> n \<notin> num ` set eps
                    then eps @ [\<lparr>num = n, ep_title = episode_title n, ep_video_url = url\<rparr>] else eps
        | None \<Rightarrow> eps)"
  by (auto simp: episode_number_def Let_def list_ex_iff image_iff split: option.splits)


lemma add_episodes_distinct:
  "distinct (map num eps) \<Longrightarrow> distinct (map num (add_episodes db urls eps))"
proof (induction urls arbitrary: eps)
  case Nil
  then show ?case by simp
next
  case (Cons u us)
  show ?case
    unfolding add_episodes_step
    by (rule Cons.IH) (use Cons.prems in \<open>auto split: option.splits\<close>)
qed

lemma add_episodes_positive:
  "\<forall>e \<in> set eps. 0 < num e \<Longrightarrow> \<forall>e \<in> set (add_episodes db urls eps). 0 < num e"
proof (induction urls arbitrary: eps)
  case Nil
  then show ?case by simp
next
  case (Cons u us)
  show ?case
    unfolding add_episodes_step
    by (rule Cons.IH) (use Cons.prems in \<open>auto split: option.splits\<close>)
qed

text \<open>Every episode added is the numbered episode of one of the URLs.\<close>

lemma add_episodes_from_urls:
  "\<forall>e \<in> set eps. Q e \<Longrightarrow>
   (\<And>u n. u \<in> set urls \<Longrightarrow> episode_number db u = Some n \<Longrightarrow> 0 < n \<Longrightarrow>
      Q \<lparr>num = n, ep_title = episode_title n, ep_video_url = u\<rparr>) \<Longrightarrow>
   \<forall>e \<in> set (add_episodes db urls eps). Q e"
proof (induction urls arbitrary: eps)
  case Nil
  then show ?case by simp
next
  case (Cons u us)
  show ?case
    unfolding add_episodes_step
  proof (rule Cons.IH)
    show "\<forall>e\<in>set (case episode_number db u of None \<Rightarrow> eps
          | Some n \<Rightarrow> if 0 < n \<and> n \<notin> num ` set eps
              then eps @ [\<lparr>num = n, ep_title = episode_title n, ep_video_url = u\<rparr>] else eps). Q e"
      using Cons.prems by (auto split: option.splits)
  next
    fix v n assume "v \<in> set us" "episode_number db v = Some n" "0 < n"
    then show "Q \<lparr>num = n, ep_title = episode_title n, ep_video_url = v\<rparr>"
      using Cons.prems(2) by simp
  qed
qed




section \<open>The set of media URLs and the episodes of a page\<close>

lemma list_of_set_set: "set (list_of_set rt xs) = set xs"
  by (simp add: list_of_set_def Let_def)

lemma list_of_set_distinct: "distinct xs \<Longrightarrow> distinct (list_of_set rt xs)"
  by (simp add: list_of_set_def Let_def)


lemma list_of_set_two:
  "a \<noteq> b \<Longrightarrow> list_of_set rt [a, b] = [a, b] \<or> list_of_set rt [a, b] = [b, a]"
proof -
  assume ab: "a \<noteq> b"
  let ?ys = "list_of_set rt [a, b]"
  have s: "set ?ys = {a, b}" and d: "distinct ?ys"
    using ab by (simp_all add: list_of_set_set list_of_set_distinct)
  then have "length ?ys = 2" using ab distinct_card [OF d] by simp
  then obtain x y where xy: "?ys = [x, y]"
    by (metis (no_types) One_nat_def Suc_1 length_0_conv length_Suc_conv)
  with s d show ?thesis by (auto simp: doubleton_eq_iff)
qed

lemma foldl_set_add_set: "set (foldl set_add acc ys) = set acc \<union> set ys"
  by (induction ys arbitrary: acc) (auto simp: set_add_def)

lemma foldl_set_add_distinct: "distinct acc \<Longrightarrow> distinct (foldl set_add acc ys)"
  by (induction ys arbitrary: acc) (auto simp: set_add_def)

lemma video_urls_distinct: "distinct (video_urls db html)"
  by (simp add: video_urls_def foldl_set_add_distinct)

lemma distinct_map_sort_key: "distinct (map f (sort_key f xs)) = distinct (map f xs)"
  by (simp add: distinct_map)

lemma resolve_episodes_cases:
  "resolve_episodes db urls =
     (if add_episodes db urls [] = [] \<and> urls \<noteq> [] then [feature_episode (hd urls)]
      else sort_key num (add_episodes db urls []))"
  by (simp add: resolve_episodes_def Let_def feature_episode_def)

lemma resolve_episodes_distinct: "distinct (map num (resolve_episodes db urls))"
  using add_episodes_distinct [of "[]" db urls]
  by (simp add: resolve_episodes_cases distinct_map_sort_key)

lemma resolve_episodes_sorted: "sorted (map num (resolve_episodes db urls))"
  by (simp add: resolve_episodes_cases sorted_sort_key)

lemma resolve_episodes_positive: "\<forall>e \<in> set (resolve_episodes db urls). 0 < num e"
  using add_episodes_positive [of "[]" db urls]
  by (simp add: resolve_episodes_cases feature_episode_def)

lemma sort_key_Nil: "sort_key f xs = [] \<longleftrightarrow> xs = []"
  by (metis length_sort length_0_conv)

lemma resolve_episodes_Nil: "resolve_episodes db urls = [] \<longleftrightarrow> urls = []"
  by (cases urls) (simp_all add: resolve_episodes_cases sort_key_Nil del: add_episodes.simps(2))

text \<open>The loop of the three attempts, unrolled.\<close>

lemma attempts_2:
  "attempts rt url vid 2 =
     (case http_get rt url 2 of
        Inr html \<Rightarrow> parse_page rt url vid html
      | Inl e \<Rightarrow> Some (failure_record url vid e))"
  by (subst attempts.simps) (simp split: sum.splits)

lemma attempts_1:
  "attempts rt url vid 1 =
     (case http_get rt url 1 of
        Inr html \<Rightarrow> parse_page rt url vid html
      | Inl e \<Rightarrow> attempts rt url vid 2)"
  by (subst attempts.simps) (simp add: numeral_2_eq_2 split: sum.splits)

lemma attempts_0:
  "attempts rt url vid 0 =
     (case http_get rt url 0 of
        Inr html \<Rightarrow> parse_page rt url vid html
      | Inl e \<Rightarrow> attempts rt url vid 1)"
  by (subst attempts.simps) (simp split: sum.splits)

lemma extract_from_page_cases:
  "extract_from_page rt url = Some v \<Longrightarrow>
   (\<exists>e. v = failure_record url (video_id_of rt url) e) \<or>
   (\<exists>html. parse_page rt url (video_id_of rt url) html = Some v)"
  unfolding extract_from_page_def attempts_0 attempts_1 attempts_2
  by (auto split: sum.splits)

lemma parse_page_episodes:
  "parse_page rt url vid html = Some v \<Longrightarrow>
   episodes v = resolve_episodes (digits rt) (list_of_set rt (video_urls (digits rt) html))"
  by (auto simp: parse_page_def Let_def split: if_splits)

lemma parse_page_video_url:
  "parse_page rt url vid html = Some v \<Longrightarrow>
   video_url v = (case list_of_set rt (video_urls (digits rt) html) of [] \<Rightarrow> [] | u # us \<Rightarrow> u)"
  by (auto simp: parse_page_def Let_def split: if_splits list.splits)


lemma extract_from_page_episodes:
  "extract_from_page rt url = Some v \<Longrightarrow>
   episodes v = [] \<or> (\<exists>urls. episodes v = resolve_episodes (digits rt) urls)"
  by (auto dest!: extract_from_page_cases parse_page_episodes simp: failure_record_def)


lemma extract_from_page_first_attempt:
  "http_get rt url 0 = Inr html \<Longrightarrow>
   extract_from_page rt url = parse_page rt url (video_id_of rt url) html"
  unfolding extract_from_page_def attempts_0 by simp

lemma parse_page_Some:
  "first_title (digits rt) title_patterns html \<noteq> [] \<Longrightarrow> \<exists>v. parse_page rt url vid html = Some v"
  by (simp add: parse_page_def Let_def)

lemma example_runtime_page:
  "first_title ascii_digits title_patterns doc \<noteq> [] \<Longrightarrow>
   \<exists>v. extract_from_page (example_runtime order doc) url = Some v \<and>
       episodes v = resolve_episodes ascii_digits
         (list_of_set (example_runtime order doc) (video_urls ascii_digits doc))"
proof -
  assume t: "first_title ascii_digits title_patterns doc \<noteq> []"
  let ?rt = "example_runtime order doc"
  have d: "digits ?rt = ascii_digits" and g: "http_get ?rt url 0 = Inr doc"
    by (simp_all add: example_runtime_def)
  from t d obtain v where v: "parse_page ?rt url (video_id_of ?rt url) doc = Some v"
    using parse_page_Some [of ?rt doc url] by auto
  from parse_page_episodes [OF v] d extract_from_page_first_attempt [OF g] v
  show ?thesis by simp
qed

lemma episode_number_url_3: "episode_number db url_3 = Some 3"
  by (simp add: episode_number_def ep_3 py_int_def asc_def decimal_value_def)

lemma episode_number_url_1: "episode_number db url_1 = Some 1"
  by (simp add: episode_number_def episode_pattern_def pattern_defs char_defs match_at_def url_1_def py_int_def)

lemma url_3_1_neq: "url_3 \<noteq> url_1"
  by (simp add: url_3_def url_1_def asc_def)

lemma resolve_3_1: "map num (resolve_episodes db [url_3, url_1]) = [1, 3]"
  by (simp add: resolve_episodes_def add_episodes_step episode_number_url_3 episode_number_url_1 Let_def
      del: add_episodes.simps(2))

lemma resolve_1_3: "map num (resolve_episodes db [url_1, url_3]) = [1, 3]"
  by (simp add: resolve_episodes_def add_episodes_step episode_number_url_3 episode_number_url_1 Let_def
      del: add_episodes.simps(2))















lemma list_of_set_id: "list_of_set (example_runtime id doc) xs = xs"
  by (simp add: list_of_set_def example_runtime_def)

section \<open>Groups that cannot be empty\<close>

lemma greedy_length: "r \<in> set (greedy P s) \<Longrightarrow> length r \<le> length s"
  by (induction s) (auto split: if_splits)

lemma lazy_length: "r \<in> set (lazy P s) \<Longrightarrow> length r \<le> length s"
  by (induction s) (auto split: if_splits)

lemma m_atom_nogroup:
  "nogroup_atom a \<Longrightarrow> (s', g') \<in> set (m_atom db ic a (s, g)) \<Longrightarrow> g' = g \<and> length s' \<le> length s"
  by (cases a) (auto split: list.splits if_splits dest: greedy_length lazy_length)

lemma m_atoms_nogroup:
  "list_all nogroup_atom as \<Longrightarrow> (s', g') \<in> set (m_atoms db ic as (s, g)) \<Longrightarrow>
   g' = g \<and> length s' \<le> length s"
proof (induction as arbitrary: s g)
  case Nil
  then show ?case by simp
next
  case (Cons a as)
  from Cons.prems obtain s1 g1 where 1: "(s1, g1) \<in> set (m_atom db ic a (s, g))"
    and 2: "(s', g') \<in> set (m_atoms db ic as (s1, g1))" by auto
  from Cons.prems(1) 1 have "g1 = g \<and> length s1 \<le> length s" by (auto dest: m_atom_nogroup)
  moreover from Cons.prems(1) 2 have "g' = g1 \<and> length s' \<le> length s1"
    using Cons.IH by simp
  ultimately show ?case by simp
qed

lemma m_item_nogroup:
  "nogroup_item i \<Longrightarrow> (s', g') \<in> set (m_item db ic i (s, g)) \<Longrightarrow> g' = g \<and> length s' \<le> length s"
  by (cases i) (auto simp: list_all_iff dest: m_atom_nogroup m_atoms_nogroup [rotated])

lemma m_items_Cons:
  "st' \<in> set (m_items db ic (i # is) st) \<longleftrightarrow>
   (\<exists>st1 \<in> set (m_item db ic i st). st' \<in> set (m_items db ic is st1))"
  by auto

lemma m_items_nogroup:
  "list_all nogroup_item p \<Longrightarrow> (s', g') \<in> set (m_items db ic p (s, g)) \<Longrightarrow>
   g' = g \<and> length s' \<le> length s"
proof (induction p arbitrary: s g)
  case Nil
  then show ?case by simp
next
  case (Cons i p)
  from Cons.prems(2) obtain s1 g1 where 1: "(s1, g1) \<in> set (m_item db ic i (s, g))"
    and 2: "(s', g') \<in> set (m_items db ic p (s1, g1))"
    unfolding m_items_Cons by auto
  from Cons.prems(1) 1 have "g1 = g \<and> length s1 \<le> length s" by (auto dest: m_item_nogroup)
  moreover from Cons.prems(1) 2 have "g' = g1 \<and> length s' \<le> length s1"
    using Cons.IH by simp
  ultimately show ?case by simp
qed

lemma m_atom_consumes:
  "consumes a \<Longrightarrow> (s', g') \<in> set (m_atom db ic a (s, g)) \<Longrightarrow> g' = g \<and> length s' < length s"
  by (cases a) (auto split: list.splits if_splits dest: greedy_length lazy_length)

lemma closes_group:
  "closes r \<Longrightarrow> length s < length go \<Longrightarrow>
   (s', go', grp') \<in> set (m_items db ic r (s, go, grp)) \<Longrightarrow> grp' \<noteq> []"
proof (induction r arbitrary: s grp)
  case Nil
  then show ?case by simp
next
  case (Cons i r)
  show ?case
  proof (cases "i = A GroupClose")
    case True
    with Cons.prems(3)
    have "(s', go', grp') \<in> set (m_items db ic r (s, go, take (length go - length s) go))"
      unfolding m_items_Cons by simp
    moreover from Cons.prems(1) True have "list_all nogroup_item r" by simp
    ultimately have "grp' = take (length go - length s) go"
      by (auto dest: m_items_nogroup)
    with Cons.prems(2) show ?thesis by auto
  next
    case False
    with Cons.prems(1) have ni: "nogroup_item i" and cl: "closes r" by simp_all
    from Cons.prems(3) obtain s1 g1 where 1: "(s1, g1) \<in> set (m_item db ic i (s, go, grp))"
      and 2: "(s', go', grp') \<in> set (m_items db ic r (s1, g1))"
      unfolding m_items_Cons by auto
    from m_item_nogroup [OF ni 1] have g1: "g1 = (go, grp)" and l: "length s1 \<le> length s" by simp_all
    from l Cons.prems(2) have "length s1 < length go" by simp
    from Cons.IH [OF cl this] 2 g1 show ?thesis by simp
  qed
qed

lemma nonempty_group_match:
  "nonempty_group p \<Longrightarrow> (s', go', grp') \<in> set (m_items db ic p st) \<Longrightarrow> grp' \<noteq> []"
proof (induction p arbitrary: st)
  case Nil
  then show ?case by simp
next
  case (Cons i p)
  show ?case
  proof (cases "i = A GroupOpen")
    case True
    with Cons.prems(1) obtain a r where p: "p = A a # r" and c: "consumes a" and cl: "closes r"
      by (auto split: list.splits item.splits)
    obtain s g where st: "st = (s, g)" by (cases st)
    from Cons.prems(2) True p st
    obtain s1 g1 where 1: "(s1, g1) \<in> set (m_atom db ic a (s, s, snd g))"
      and 2: "(s', go', grp') \<in> set (m_items db ic r (s1, g1))"
      by auto
    from m_atom_consumes [OF c 1] have "g1 = (s, snd g)" and "length s1 < length s" by simp_all
    with closes_group [OF cl, of s1 s s' go' grp' db ic "snd g"] 2 show ?thesis by simp
  next
    case False
    with Cons.prems(1) have n: "nonempty_group p" by simp
    from Cons.prems(2) obtain st1 where "(s', go', grp') \<in> set (m_items db ic p st1)"
      unfolding m_items_Cons by auto
    from Cons.IH [OF n this] show ?thesis .
  qed
qed

lemma match_at_group_nonempty:
  "nonempty_group p \<Longrightarrow> match_at db ic p s = Some (grp, r) \<Longrightarrow> grp \<noteq> []"
proof -
  assume n: "nonempty_group p" and m: "match_at db ic p s = Some (grp, r)"
  from m obtain go rest where "m_items db ic p (s, [], []) = (r, go, grp) # rest"
    by (auto simp: match_at_def split: list.splits)
  then have "(r, go, grp) \<in> set (m_items db ic p (s, [], []))" by simp
  from nonempty_group_match [OF n this] show ?thesis .
qed


text \<open>Every group that \<open>finditer\<close> returns is the group of a match at some position.\<close>

lemma finditer_from_all:
  "list_all (\<lambda>g. \<exists>s' r. match_at db ic p s' = Some (g, r)) (finditer_from db ic p k s)"
proof (induction s arbitrary: k)
  case Nil
  show ?case
  proof (cases "match_at db ic p []")
    case None
    then show ?thesis by simp
  next
    case (Some m)
    obtain grp r where m: "m = (grp, r)" by (cases m)
    have "\<exists>s' r. match_at db ic p s' = Some (grp, r)" using Some m by blast
    then show ?thesis using Some m by simp
  qed
next
  case (Cons c cs)
  show ?case
  proof (cases "match_at db ic p (c # cs)")
    case None
    then show ?thesis using Cons.IH by simp
  next
    case (Some m)
    obtain grp r where m: "m = (grp, r)" by (cases m)
    have "\<exists>s' r. match_at db ic p s' = Some (grp, r)" using Some m by blast
    then show ?thesis using Some m Cons.IH by simp
  qed
qed

lemma finditer_from_match:
  "g \<in> set (finditer_from db ic p k s) \<Longrightarrow> \<exists>s' r. match_at db ic p s' = Some (g, r)"
  using finditer_from_all [of db ic p k s] unfolding list_all_iff by blast

lemma finditer_nonempty:
  "nonempty_group p \<Longrightarrow> g \<in> set (finditer db ic p s) \<Longrightarrow> g \<noteq> []"
  unfolding finditer_def by (auto dest!: finditer_from_match dest: match_at_group_nonempty)

lemma video_patterns_nonempty_group: "\<forall>p \<in> set video_patterns. nonempty_group p"
  by (simp add: video_patterns_def pattern_defs)

lemma video_urls_nonempty: "u \<in> set (video_urls db html) \<Longrightarrow> u \<noteq> []"
  using video_patterns_nonempty_group
  by (auto simp: video_urls_def foldl_set_add_set dest: finditer_nonempty)


section \<open>The attempts and the filter\<close>

lemma first_title_none:
  "\<forall>p \<in> set ps. search db True p html = None \<Longrightarrow> first_title db ps html = []"
  by (induction ps) auto

lemma attempts_first_success:
  assumes "k < 3" and "\<forall>j<k. \<exists>e. http_get rt url j = Inl e" and "http_get rt url k = Inr html"
  shows "attempts rt url vid 0 = parse_page rt url vid html"
proof -
  from assms(1) consider "k = 0" | "k = 1" | "k = 2" by linarith
  then show ?thesis
  proof cases
    case 1
    with assms(3) show ?thesis by (simp add: attempts_0)
  next
    case 2
    with assms(2) obtain e where "http_get rt url 0 = Inl e" by auto
    with 2 assms(3) show ?thesis by (simp add: attempts_0 attempts_1 del: One_nat_def)
  next
    case 3
    with assms(2) have "\<exists>e. http_get rt url 0 = Inl e" and "\<exists>e. http_get rt url 1 = Inl e"
      by simp_all
    then obtain e0 e1 where "http_get rt url 0 = Inl e0" "http_get rt url 1 = Inl e1" by blast
    with 3 assms(3) show ?thesis by (simp add: attempts_0 attempts_1 attempts_2 del: One_nat_def)
  qed
qed


lemma title_patterns_doc_plain: "\<forall>p \<in> set title_patterns. search db True p doc_plain = None"
  by (simp add: title_patterns_def pattern_defs char_defs match_at_def doc_plain_def)



section \<open>The report\<close>

lemma emit_episodes_eq:
  "emit_episodes v eps (lines, n) =
     (lines @ concat (map (\<lambda>ep. block v (title v @ asc '' - '' @ ep_title ep) (ep_video_url ep)) eps),
      n + length eps)"
  by (induction eps arbitrary: lines n) auto

lemma emit_video_eq:
  "emit_video v (lines, n) = (lines @ concat (video_blocks v), n + length (video_blocks v))"
  by (simp add: video_blocks_def emit_episodes_eq)

lemma emit_videos_eq:
  "emit_videos vs (lines, n) =
     (lines @ concat (map (\<lambda>v. concat (video_blocks v)) vs), n + block_count vs)"
  by (induction vs arbitrary: lines n) (auto simp: emit_video_eq block_count_def simp del: emit_video.simps)

lemma emit_groups_eq:
  "emit_groups gs (lines, n) =
     (lines @ concat (map (\<lambda>(a, vs). group_lines a vs) gs),
      n + sum_list (map (\<lambda>(a, vs). block_count vs) gs))"
  by (induction gs arbitrary: lines n) (auto simp: emit_videos_eq group_lines_def)

text \<open>The dictionary after the loop over the valid records.\<close>

lemma group_add_keys:
  "map fst (group_add gs v) =
     (if group_key v \<in> set (map fst gs) then map fst gs else map fst gs @ [group_key v])"
  by (auto simp: group_add_def Let_def split_def comp_def)

lemma group_add_distinct: "distinct (map fst gs) \<Longrightarrow> distinct (map fst (group_add gs v))"
  by (simp add: group_add_keys)

lemma foldl_group_add_distinct:
  "distinct (map fst gs) \<Longrightarrow> distinct (map fst (foldl group_add gs vs))"
  by (induction vs arbitrary: gs) (simp_all add: group_add_distinct)

lemma group_add_key_set: "fst ` set (group_add gs v) = insert (group_key v) (fst ` set gs)"
proof -
  have "set (map fst (group_add gs v)) = insert (group_key v) (set (map fst gs))"
    unfolding group_add_keys by auto
  then show ?thesis by simp
qed

lemma foldl_group_add_keys:
  "fst ` set (foldl group_add gs vs) = fst ` set gs \<union> group_key ` set vs"
proof (induction vs arbitrary: gs)
  case Nil
  then show ?case by simp
next
  case (Cons v vs)
  have "fst ` set (foldl group_add gs (v # vs)) = fst ` set (group_add gs v) \<union> group_key ` set vs"
    using Cons.IH [of "group_add gs v"] by simp
  then show ?case unfolding group_add_key_set by auto
qed

lemma group_add_values:
  assumes "\<forall>(k, ws) \<in> set gs. ws = author_group pre k"
    and "\<forall>w \<in> set pre. group_key w \<in> set (map fst gs)"
  shows "\<forall>(k, ws) \<in> set (group_add gs v). ws = author_group (pre @ [v]) k"
proof -
  have new: "author_group pre (group_key v) = []" if "group_key v \<notin> set (map fst gs)"
    unfolding author_group_def filter_empty_conv using that assms(2) by metis
  show ?thesis
    using assms(1) new
    by (auto simp: group_add_def Let_def author_group_def split: if_splits)
qed

lemma foldl_group_add_values:
  assumes "\<forall>(k, ws) \<in> set gs. ws = author_group pre k"
    and "\<forall>w \<in> set pre. group_key w \<in> set (map fst gs)"
  shows "\<forall>(k, ws) \<in> set (foldl group_add gs vs). ws = author_group (pre @ vs) k"
  using assms
proof (induction vs arbitrary: gs pre)
  case Nil
  then show ?case by simp
next
  case (Cons v vs)
  have 1: "\<forall>(k, ws) \<in> set (group_add gs v). ws = author_group (pre @ [v]) k"
    using Cons.prems by (rule group_add_values)
  have 2: "\<forall>w \<in> set (pre @ [v]). group_key w \<in> set (map fst (group_add gs v))"
    using Cons.prems(2) group_add_key_set [of gs v] by auto
  from Cons.IH [OF 1 2] show ?case by simp
qed

lemma sorted_groups:
  "sort_key fst (foldl group_add [] vs) = map (\<lambda>a. (a, author_group vs a)) (sorted_authors vs)"
proof -
  let ?gs = "foldl group_add [] vs"
  let ?ss = "sort_key fst ?gs"
  have d: "distinct (map fst ?gs)" by (simp add: foldl_group_add_distinct)
  have k: "set (map fst ?gs) = group_key ` set vs" using foldl_group_add_keys [of "[]" vs] by simp
  have v: "\<forall>(k, ws) \<in> set ?gs. ws = author_group vs k"
    using foldl_group_add_values [of "[]" "[]" vs] by simp
  have "sorted (map fst ?ss)" by (rule sorted_sort_key)
  moreover have "distinct (map fst ?ss)" using d by (simp add: distinct_map_sort_key)
  moreover have "set (map fst ?ss) = group_key ` set vs" using k by simp
  ultimately have keys: "map fst ?ss = sorted_authors vs"
    unfolding sorted_authors_def
    by (metis sorted_list_of_set.idem_if_sorted_distinct)
  have "?ss = map (\<lambda>p. (fst p, author_group vs (fst p))) ?ss"
    using v by (intro map_idI [symmetric]) (auto simp: split_def)
  also have "\<dots> = map (\<lambda>a. (a, author_group vs a)) (map fst ?ss)" by (simp add: comp_def)
  finally show ?thesis unfolding keys .
qed

lemma sum_author_groups:
  assumes "distinct ks" and "group_key ` set vs \<subseteq> set ks"
  shows "sum_list (map (\<lambda>a. block_count (author_group vs a)) ks) = block_count vs"
  using assms(2)
proof (induction vs)
  case Nil
  then show ?case by (simp add: block_count_def author_group_def)
next
  case (Cons v vs)
  then have in_ks: "group_key v \<in> set ks" and sub: "group_key ` set vs \<subseteq> set ks" by auto
  have split: "block_count (author_group (v # vs) a) =
      (if group_key v = a then length (video_blocks v) else 0) + block_count (author_group vs a)" for a
    by (simp add: block_count_def author_group_def)
  have one: "sum_list (map (\<lambda>a. if group_key v = a then length (video_blocks v) else 0) ks) =
      length (video_blocks v)"
    using assms(1) in_ks
  proof (induction ks)
    case Nil
    then show ?case by simp
  next
    case (Cons k ks)
    then show ?case by (cases "group_key v = k") auto
  qed
  have "sum_list (map (\<lambda>a. block_count (author_group (v # vs) a)) ks) =
      sum_list (map (\<lambda>a. (if group_key v = a then length (video_blocks v) else 0) +
        block_count (author_group vs a)) ks)"
    by (simp only: split)
  also have "\<dots> = sum_list (map (\<lambda>a. if group_key v = a then length (video_blocks v) else 0) ks) +
      sum_list (map (\<lambda>a. block_count (author_group vs a)) ks)"
    by (rule sum_list_addf)
  also have "\<dots> = length (video_blocks v) + block_count vs"
    by (simp only: one Cons.IH [OF sub])
  also have "\<dots> = block_count (v # vs)" by (simp add: block_count_def)
  finally show ?case .
qed

lemma import_lines_eq:
  "import_lines videos =
     (concat (map (\<lambda>a. group_lines a (author_group (valid_videos videos) a))
        (sorted_authors (valid_videos videos))),
      block_count (valid_videos videos))"
proof -
  let ?vs = "valid_videos videos"
  have "sum_list (map (\<lambda>a. block_count (author_group ?vs a)) (sorted_authors ?vs)) = block_count ?vs"
    by (rule sum_author_groups) (simp_all add: sorted_authors_def)
  then show ?thesis
    by (simp add: import_lines_def grouped_videos_def sorted_groups emit_groups_eq comp_def)
qed


lemma video_lines_append: "video_lines (xs @ ys) = video_lines xs + video_lines ys"
  by (simp add: video_lines_def)

lemma video_lines_block: "video_lines (block v t u) = 1"
  by (simp add: video_lines_def block_def label_video_def label_title_def label_description_def
      label_cover_def label_tags_def)

lemma video_lines_blocks:
  "\<forall>b \<in> set bs. video_lines b = 1 \<Longrightarrow> video_lines (concat bs) = length bs"
  by (induction bs) (simp_all add: video_lines_append, simp add: video_lines_def)

lemma video_lines_record: "video_lines (concat (video_blocks v)) = length (video_blocks v)"
  by (rule video_lines_blocks) (auto simp: video_blocks_def video_lines_block)

lemma video_lines_records:
  "video_lines (concat (map (\<lambda>v. concat (video_blocks v)) vs)) = block_count vs"
  by (induction vs) (simp_all add: video_lines_append video_lines_record block_count_def,
      simp add: video_lines_def)

lemma video_lines_header: "video_lines ((label_collection @ a) # [] # ls) = video_lines ls"
  by (simp add: video_lines_def label_collection_def label_video_def)

lemma video_lines_group: "video_lines (group_lines a vs) = block_count vs"
  by (simp add: group_lines_def video_lines_header video_lines_records)

lemma video_lines_groups:
  "video_lines (concat (map (\<lambda>a. group_lines a (f a)) ks)) = sum_list (map (\<lambda>a. block_count (f a)) ks)"
  by (induction ks) (simp_all add: video_lines_append video_lines_group, simp add: video_lines_def)

lemma video_lines_import: "video_lines (fst (import_lines videos)) = snd (import_lines videos)"
proof -
  let ?vs = "valid_videos videos"
  have "sum_list (map (\<lambda>a. block_count (author_group ?vs a)) (sorted_authors ?vs)) = block_count ?vs"
    by (rule sum_author_groups) (simp_all add: sorted_authors_def)
  then show ?thesis by (simp add: import_lines_eq video_lines_groups)
qed

lemma generate_import_text_count: "snd (generate_import_text videos) = snd (import_lines videos)"
  by (simp add: generate_import_text_def split_def)

lemma two_episode_blocks: "two_episode_record v \<Longrightarrow> length (video_blocks v) = 2"
proof -
  assume a: "two_episode_record v"
  then have "filter (\<lambda>ep. ep_video_url ep \<noteq> []) (episodes v) = episodes v"
    by (simp add: two_episode_record_def list_all_iff)
  with a show ?thesis by (simp add: two_episode_record_def video_blocks_def)
qed

lemma single_url_blocks: "single_url_record v \<Longrightarrow> video_blocks v = [block v (title v) (video_url v)]"
  by (simp add: single_url_record_def video_blocks_def)

lemma sorted_authors_two:
  "sorted_authors [v, w] =
     (if group_key v = group_key w then [group_key v]
      else if group_key v < group_key w then [group_key v, group_key w]
      else [group_key w, group_key v])"
  by (auto simp: sorted_authors_def insort_is_Cons)

lemma import_lines_two:
  assumes "is_valid v" and "is_valid w"
  shows "fst (import_lines [v, w]) =
     (if group_key v = group_key w then group_lines (group_key v) [v, w]
      else if group_key v < group_key w
        then group_lines (group_key v) [v] @ group_lines (group_key w) [w]
      else group_lines (group_key w) [w] @ group_lines (group_key v) [v])"
  using assms
  by (auto simp: import_lines_eq valid_videos_def sorted_authors_two author_group_def)


lemma sorted_authors_props:
  "sorted (sorted_authors vs) \<and> distinct (sorted_authors vs) \<and>
   set (sorted_authors vs) = group_key ` set vs"
  by (simp add: sorted_authors_def)

lemma header_in_import_lines:
  assumes "v \<in> set videos" and "is_valid v"
  shows "label_collection @ group_key v \<in> set (fst (import_lines videos))"
proof -
  let ?vs = "valid_videos videos"
  from assms have "v \<in> set ?vs" by (simp add: valid_videos_def)
  then have "group_key v \<in> set (sorted_authors ?vs)" by (simp add: sorted_authors_def)
  moreover have "label_collection @ group_key v \<in> set (group_lines (group_key v) ws)" for ws
    by (simp add: group_lines_def)
  ultimately show ?thesis by (auto simp: import_lines_eq)
qed

section \<open>The archive token of a URL\<close>

lemma concat_map_bind:
  "concat (map (\<lambda>x. concat (map g (f x))) xs) = concat (map g (concat (map f xs)))"
  by (induction xs) simp_all

lemma m_items_append:
  "m_items db ic (p @ q) st = concat (map (m_items db ic q) (m_items db ic p st))"
proof (induction p arbitrary: st)
  case Nil
  then show ?case by simp
next
  case (Cons i p)
  have "m_items db ic (p @ q) = (\<lambda>x. concat (map (m_items db ic q) (m_items db ic p x)))"
    by (rule ext) (rule Cons.IH)
  then have "m_items db ic ((i # p) @ q) st =
      concat (map (\<lambda>x. concat (map (m_items db ic q) (m_items db ic p x))) (m_item db ic i st))"
    by simp
  also have "\<dots> = concat (map (m_items db ic q) (concat (map (m_items db ic p) (m_item db ic i st))))"
    by (rule concat_map_bind)
  finally show ?case by simp
qed

text \<open>A literal string, compiled without flags, matches as a prefix.\<close>

lemma m_items_lit:
  "m_items db False (lit w) (s, g) = (if take (length w) s = w \<and> length w \<le> length s
     then [(drop (length w) s, g)] else [])"
proof (induction w arbitrary: s)
  case Nil
  then show ?case by (simp add: lit_def)
next
  case (Cons c w)
  have l: "lit (c # w) = A (One (In [CLit c])) # lit w" by (simp add: lit_def)
  show ?case
  proof (cases s)
    case Nil
    then show ?thesis by (simp add: l)
  next
    case (Cons x xs)
    then show ?thesis using Cons.IH [of xs] by (simp add: l lit_match_def)
  qed
qed

lemma m_items_lit_prefix:
  "m_items db False (lit w) (w @ s, g) = [(s, g)]"
  by (simp add: m_items_lit)

text \<open>
  After a greedy run, a continuation that fails on every rest starting with a character
  of the run sees the rest after the longest run only.
\<close>

lemma greedy_longest:
  assumes "\<And>c r. P c \<Longrightarrow> f (c # r) = []"
  shows "concat (map f (greedy P s)) = f (dropWhile P s)"
  by (induction s) (simp_all add: assms)

lemma not_digit_dot: "\<not> is_digit db 46"
  by (simp add: is_digit_def decimal_value_def)

lemma take_run:
  "take (Suc (length r) - length (dropWhile P r)) (c # r) = c # takeWhile P r"
proof -
  have "length r = length (takeWhile P r) + length (dropWhile P r)"
    by (metis length_append takeWhile_dropWhile_id)
  then have n: "Suc (length r) - length (dropWhile P r) = length (c # takeWhile P r)"
    by simp
  have "c # r = (c # takeWhile P r) @ dropWhile P r" by simp
  then have "take (length (c # takeWhile P r)) (c # r) = c # takeWhile P r"
    by (metis append_eq_conv_conj)
  then show ?thesis by (simp only: n)
qed

lemma archives_length: "length (asc ''/archives/'') = 10"
  by (simp add: asc_def)

lemma html_length: "length (asc ''.html'') = 5"
  by (simp add: asc_def)

lemma html_dot: "asc ''.html'' = 46 # asc ''html''"
  by (simp add: asc_def)

lemma m_items_lit_fail:
  "take (length w) s \<noteq> w \<Longrightarrow> m_items db False (lit w) (s, g) = []"
  by (simp add: m_items_lit)

lemma m_items_lit_ok:
  "take (length w) s = w \<Longrightarrow> m_items db False (lit w) (s, g) = [(drop (length w) s, g)]"
proof -
  assume t: "take (length w) s = w"
  then have "length w = min (length s) (length w)" by (metis length_take)
  then have "length w \<le> length s" by linarith
  with t show ?thesis by (simp add: m_items_lit)
qed

lemma cset_digit: "cset_match db ic (In [CDigit]) = is_digit db"
  by (rule ext) simp

lemma match_at_archive:
  "match_at db False archive_pattern s =
     map_option (\<lambda>d. (d, drop (15 + length d) s)) (token_at db s)"
proof (cases "take 10 s = asc ''/archives/''")
  case False
  then have "m_items db False (lit (asc ''/archives/'')) (s, [], []) = []"
    by (intro m_items_lit_fail) (simp only: archives_length, simp)
  then show ?thesis
    using False
    by (simp add: match_at_def archive_pattern_def lits_def m_items_append token_at_def)
next
  case True
  let ?r = "drop 10 s"
  let ?P = "is_digit db"
  let ?rest = "[A GroupOpen, A (Plus (In [CDigit])), A GroupClose] @ lit (asc ''.html'')"
  have pre: "m_items db False (lit (asc ''/archives/'')) (s, [], []) = [(?r, [], [])]"
    using m_items_lit_ok [of "asc ''/archives/''" s db "([], [])"] True
    by (simp only: archives_length)
  have whole: "m_items db False archive_pattern (s, [], []) = m_items db False ?rest (?r, [], [])"
    by (simp add: archive_pattern_def lits_def m_items_append pre)
  show ?thesis
  proof (cases ?r)
    case Nil
    have e: "m_items db False ?rest (?r, [], []) = []" unfolding Nil by simp
    have "match_at db False archive_pattern s = None"
      unfolding match_at_def whole e by simp
    moreover have "token_at db s = None" unfolding token_at_def Nil by simp
    ultimately show ?thesis by simp
  next
    case (Cons c r)
    show ?thesis
    proof (cases "?P c")
      case False
      have e: "m_items db False ?rest (?r, [], []) = []" unfolding Cons using False by simp
      have "match_at db False archive_pattern s = None"
        unfolding match_at_def whole e by simp
      moreover have "token_at db s = None" unfolding token_at_def Cons using False by simp
      ultimately show ?thesis by simp
    next
      case digit: True
      let ?f = "\<lambda>r'. m_items db False (lit (asc ''.html''))
          (r', c # r, take (Suc (length r) - length r') (c # r))"
      have fail: "?f (x # xs) = []" if "?P x" for x xs
      proof -
        from that have "x \<noteq> 46" using not_digit_dot by metis
        then show ?thesis by (intro m_items_lit_fail) (simp add: html_dot)
      qed
      have "m_items db False ?rest (?r, [], []) = concat (map ?f (greedy ?P r))"
        unfolding Cons using digit by (simp add: comp_def cset_digit)
      also have "\<dots> = ?f (dropWhile ?P r)"
        using fail by (rule greedy_longest)
      finally have res: "m_items db False archive_pattern (s, [], []) = ?f (dropWhile ?P r)"
        using whole by simp
      let ?r' = "dropWhile ?P r"
      let ?d = "c # takeWhile ?P r"
      have d: "takeWhile ?P ?r = ?d" "dropWhile ?P ?r = ?r'"
        using Cons digit by simp_all
      show ?thesis
      proof (cases "take 5 ?r' = asc ''.html''")
        case t: True
        have "?r = ?d @ ?r'" using Cons by simp
        then have "drop (length ?d) ?r = ?r'" by (metis append_eq_conv_conj)
        then have "?r' = drop (length ?d + 10) s" by (simp only: drop_drop)
        then have "drop 5 ?r' = drop (5 + (length ?d + 10)) s" by (simp only: drop_drop)
        then have dd: "drop 5 ?r' = drop (15 + length ?d) s" by (simp add: add.commute)
        have "?f ?r' = [(drop 5 ?r', c # r, take (Suc (length r) - length ?r') (c # r))]"
          using m_items_lit_ok [of "asc ''.html''" ?r'] t by (simp only: html_length)
        then have "match_at db False archive_pattern s = Some (?d, drop 5 ?r')"
          unfolding match_at_def res by (simp add: take_run)
        moreover have "token_at db s = Some ?d"
          unfolding token_at_def Let_def d using True t by simp
        ultimately show ?thesis using dd by simp
      next
        case f: False
        then have e: "?f ?r' = []"
          by (intro m_items_lit_fail) (simp only: html_length, simp)
        have "match_at db False archive_pattern s = None"
          unfolding match_at_def res e by simp
        moreover have "token_at db s = None"
          unfolding token_at_def Let_def d using f by simp
        ultimately show ?thesis by simp
      qed
    qed
  qed
qed

lemma token_at_Nil: "token_at db [] = None"
  by (simp add: token_at_def asc_def)

lemma search_archive: "search db False archive_pattern s = first_token db s"
  by (induction s) (auto simp: match_at_archive token_at_Nil split: option.splits)

lemma token_at_Some:
  "token_at db s = Some d \<longleftrightarrow> (\<exists>post. s = archive_token d @ post) \<and> digit_string db d"
proof
  assume a: "token_at db s = Some d"
  let ?P = "is_digit db"
  let ?r = "drop 10 s"
  from a have 1: "take 10 s = asc ''/archives/''" and 2: "d = takeWhile ?P ?r" and 3: "d \<noteq> []"
    and 4: "take 5 (dropWhile ?P ?r) = asc ''.html''"
    by (auto simp: token_at_def Let_def split: if_splits)
  have "s = take 10 s @ ?r" by simp
  also have "?r = d @ dropWhile ?P ?r" unfolding 2 by simp
  also have "dropWhile ?P ?r = take 5 (dropWhile ?P ?r) @ drop 5 (dropWhile ?P ?r)" by simp
  finally have "s = archive_token d @ drop 5 (dropWhile ?P ?r)"
    unfolding 1 4 archive_token_def by simp
  moreover have "list_all ?P d" unfolding 2 list_all_iff by (auto dest: set_takeWhileD)
  ultimately show "(\<exists>post. s = archive_token d @ post) \<and> digit_string db d"
    using 3 by (auto simp: digit_string_def)
next
  assume "(\<exists>post. s = archive_token d @ post) \<and> digit_string db d"
  then obtain post where s: "s = asc ''/archives/'' @ d @ asc ''.html'' @ post"
    and d: "d \<noteq> []" "\<forall>c \<in> set d. is_digit db c"
    by (auto simp: archive_token_def digit_string_def list_all_iff)
  let ?P = "is_digit db"
  have 1: "take 10 s = asc ''/archives/''" and r: "drop 10 s = d @ asc ''.html'' @ post"
    unfolding s using archives_length by simp_all
  have 2: "takeWhile ?P (d @ asc ''.html'' @ post) = d"
    using d(2) by (simp add: takeWhile_append2 html_dot not_digit_dot)
  have 3: "dropWhile ?P (d @ asc ''.html'' @ post) = asc ''.html'' @ post"
    using d(2) by (simp add: dropWhile_append2 html_dot not_digit_dot)
  have 4: "take 5 (asc ''.html'' @ post) = asc ''.html''"
    using html_length by simp
  show "token_at db s = Some d"
    unfolding token_at_def Let_def r 2 3 4 using 1 d(1) by simp
qed

lemma first_token_skip:
  "\<forall>k < length pre. token_at db (drop k (pre @ s)) = None \<Longrightarrow>
   first_token db (pre @ s) = first_token db s"
proof (induction pre)
  case Nil
  then show ?case by simp
next
  case (Cons c pre)
  from Cons.prems have "token_at db (drop 0 ((c # pre) @ s)) = None" by blast
  then have h: "token_at db (c # pre @ s) = None" by simp
  have "\<forall>k < length pre. token_at db (drop k (pre @ s)) = None"
  proof (intro allI impI)
    fix k assume "k < length pre"
    then have "Suc k < length (c # pre)" by simp
    with Cons.prems have "token_at db (drop (Suc k) ((c # pre) @ s)) = None" by blast
    then show "token_at db (drop k (pre @ s)) = None" by simp
  qed
  from Cons.IH [OF this] h show ?case by simp
qed

lemma first_token_here:
  "token_at db s = Some d \<Longrightarrow> first_token db s = Some d"
  by (cases s) (simp_all add: token_at_Nil)

lemma first_token_Some:
  "first_token db s = Some d \<Longrightarrow>
   \<exists>pre post. s = pre @ archive_token d @ post \<and> digit_string db d"
proof (induction s)
  case Nil
  then show ?case by simp
next
  case (Cons c cs)
  show ?case
  proof (cases "token_at db (c # cs)")
    case None
    with Cons.prems have "first_token db cs = Some d" by simp
    from Cons.IH [OF this] obtain pre post where "cs = pre @ archive_token d @ post"
      and d: "digit_string db d" by blast
    then have "c # cs = (c # pre) @ archive_token d @ post" by simp
    with d show ?thesis by blast
  next
    case (Some e)
    with Cons.prems have "e = d" by simp
    with Some have "token_at db (c # cs) = Some d" by simp
    then have "(\<exists>post. c # cs = archive_token d @ post) \<and> digit_string db d"
      by (simp only: token_at_Some)
    then obtain post where "c # cs = [] @ archive_token d @ post" and "digit_string db d"
      by auto
    then show ?thesis by blast
  qed
qed

lemma first_token_None:
  "first_token db s = None \<Longrightarrow> s = pre @ archive_token d @ post \<Longrightarrow> \<not> digit_string db d"
proof (induction s arbitrary: pre)
  case Nil
  then show ?case by (simp add: archive_token_def asc_def)
next
  case (Cons c cs)
  from Cons.prems(1) have t: "token_at db (c # cs) = None" and f: "first_token db cs = None"
    by (auto split: option.splits)
  show ?case
  proof (cases pre)
    case Nil
    with Cons.prems(2) have "\<exists>post. c # cs = archive_token d @ post" by auto
    with t show ?thesis using token_at_Some [of db "c # cs" d] by auto
  next
    case (Cons x xs)
    with Cons.prems(2) have "cs = xs @ archive_token d @ post" by simp
    from Cons.IH [OF f this] show ?thesis .
  qed
qed


lemma leftmost_token:
  assumes "url = pre @ archive_token d @ post" and "digit_string db d"
    and "\<forall>pre' d' post'. url = pre' @ archive_token d' @ post' \<and> digit_string db d' \<longrightarrow>
           length pre \<le> length pre'"
  shows "first_token db url = Some d"
proof -
  have none: "\<forall>k < length pre. token_at db (drop k (pre @ archive_token d @ post)) = None"
  proof (intro allI impI)
    fix k assume k: "k < length pre"
    show "token_at db (drop k (pre @ archive_token d @ post)) = None"
    proof (rule ccontr)
      assume "token_at db (drop k (pre @ archive_token d @ post)) \<noteq> None"
      then obtain d' where "token_at db (drop k url) = Some d'" using assms(1) by auto
      then obtain post' where p: "drop k url = archive_token d' @ post'" and d': "digit_string db d'"
        using token_at_Some [of db "drop k url" d'] by auto
      have "url = take k url @ archive_token d' @ post'"
        using p by (metis append_take_drop_id)
      with assms(3) d' have "length pre \<le> length (take k url)" by blast
      with k show False by simp
    qed
  qed
  have "token_at db (archive_token d @ post) = Some d"
    using assms(2) token_at_Some [of db "archive_token d @ post" d] by blast
  then have "first_token db (archive_token d @ post) = Some d" by (rule first_token_here)
  with first_token_skip [OF none] show ?thesis unfolding assms(1) by simp
qed

lemma scan_leftmost:
  assumes "url = pre' @ archive_token d' @ post'" and "digit_string db d'"
    and "\<forall>k < n. token_at db (drop k url) = None"
  shows "n \<le> length pre'"
proof (rule ccontr)
  assume "\<not> n \<le> length pre'"
  then have "length pre' < n" by simp
  with assms(3) have "token_at db (drop (length pre') url) = None" by blast
  moreover have "token_at db (drop (length pre') url) = Some d'"
    unfolding assms(1) using assms(2) token_at_Some [of db "archive_token d' @ post'" d'] by simp
  ultimately show False by simp
qed

lemma example_page_split:
  "example_page = asc ''https://tv.mikiacg.org'' @ archive_token (asc ''12'') @ []"
  by (simp add: example_page_def archive_token_def asc_def)

lemma example_page_scan:
  "\<forall>k < 22. token_at db (drop k example_page) = None"
proof -
  have u: "[0..<22] = [0, 1, 2, 3, 4, 5, 6, 7, 8, 9, 10, 11, 12, 13, 14, 15, 16, 17, 18, 19, 20, 21::nat]"
    by code_simp
  have "list_all (\<lambda>k. token_at db (drop k example_page) = None) [0..<22]"
    unfolding u by (simp add: token_at_def example_page_def asc_def)
  then show ?thesis by (simp add: list_all_iff)
qed

section \<open>Order of the episodes\<close>

text \<open>
  Claim C4. For every list of media URLs, and so for every document, the episodes resolved
  have strictly ascending numbers, hence pairwise distinct ones, all positive; the same
  holds for the episodes of every record the scraper returns. URLs ending in \<^verbatim>\<open>/3.mp4\<close>
  and \<^verbatim>\<open>/1.mp4\<close> give the numbers 1, 3 in either order of iteration, and a document that
  holds these two URLs gives them for every runtime.
\<close>

theorem episodes_strictly_ascending:
  "sorted_wrt (<) (map num (resolve_episodes db urls)) \<and>
   distinct (map num (resolve_episodes db urls)) \<and>
   (\<forall>e \<in> set (resolve_episodes db urls). 0 < num e) \<and>
   (\<forall>v. extract_from_page rt url = Some v \<longrightarrow>
      sorted_wrt (<) (map num (episodes v)) \<and> distinct (map num (episodes v)) \<and>
      (\<forall>e \<in> set (episodes v). 0 < num e)) \<and>
   map num (resolve_episodes db [url_3, url_1]) = [1, 3] \<and>
   map num (resolve_episodes db [url_1, url_3]) = [1, 3] \<and>
   (\<forall>vid v. parse_page rt url vid doc_3_1 = Some v \<longrightarrow> map num (episodes v) = [1, 3])"
proof -
  have r: "sorted_wrt (<) (map num (resolve_episodes d us)) \<and>
      distinct (map num (resolve_episodes d us)) \<and>
      (\<forall>e \<in> set (resolve_episodes d us). 0 < num e)" for d us
    using resolve_episodes_sorted [of d us] resolve_episodes_distinct [of d us]
      resolve_episodes_positive [of d us]
    by (simp add: strict_sorted_iff)
  have page: "\<forall>v. extract_from_page rt url = Some v \<longrightarrow>
      sorted_wrt (<) (map num (episodes v)) \<and> distinct (map num (episodes v)) \<and>
      (\<forall>e \<in> set (episodes v). 0 < num e)"
  proof (intro allI impI)
    fix v assume "extract_from_page rt url = Some v"
    from extract_from_page_episodes [OF this] r
    show "sorted_wrt (<) (map num (episodes v)) \<and> distinct (map num (episodes v)) \<and>
      (\<forall>e \<in> set (episodes v). 0 < num e)"
      by auto
  qed
  have doc: "\<forall>vid v. parse_page rt url vid doc_3_1 = Some v \<longrightarrow> map num (episodes v) = [1, 3]"
  proof (intro allI impI)
    fix vid v assume "parse_page rt url vid doc_3_1 = Some v"
    then have e: "episodes v = resolve_episodes (digits rt) (list_of_set rt [url_3, url_1])"
      by (simp add: parse_page_episodes video_urls_doc_3_1)
    from list_of_set_two [OF url_3_1_neq, of rt] show "map num (episodes v) = [1, 3]"
      unfolding e by (auto simp: resolve_3_1 resolve_1_3)
  qed
  from r [of db urls] page doc resolve_3_1 resolve_1_3 show ?thesis by blast
qed

text \<open>A page with the two URLs, the set iterated in reverse order of insertion.\<close>

theorem episodes_strictly_ascending_witness:
  "\<exists>v. extract_from_page (example_runtime rev doc_3_1) example_page = Some v \<and>
       map num (episodes v) = [1, 3] \<and> sorted_wrt (<) (map num (episodes v)) \<and>
       list_all (\<lambda>e. 0 < num e) (episodes v)"
proof -
  let ?rt = "example_runtime rev doc_3_1"
  have "first_title ascii_digits title_patterns doc_3_1 \<noteq> []"
    by (simp add: title_doc_3_1 asc_def)
  from example_runtime_page [OF this, of rev example_page]
  obtain v where v: "extract_from_page ?rt example_page = Some v" by blast
  have g: "http_get ?rt example_page 0 = Inr doc_3_1" by (simp add: example_runtime_def)
  from v extract_from_page_first_attempt [OF g]
  have p: "parse_page ?rt example_page (video_id_of ?rt example_page) doc_3_1 = Some v" by simp
  from episodes_strictly_ascending [of ascii_digits "[]" ?rt example_page] v p
  show ?thesis unfolding list_all_iff by blast
qed


section \<open>The single unnumbered episode\<close>



section \<open>Two URLs with the same episode number\<close>




section \<open>A page without a title\<close>

text \<open>
  Claim C6. When a fetch of the page succeeds, at the first attempt or after failed ones,
  and none of the three title patterns matches the document, the scraper returns no
  record: neither a record with an empty title nor a failure record.
\<close>

theorem no_title_no_record:
  assumes "k < 3" and "\<forall>j<k. \<exists>e. http_get rt url j = Inl e" and "http_get rt url k = Inr html"
    and "\<forall>p \<in> set title_patterns. search (digits rt) True p html = None"
  shows "extract_from_page rt url = None"
proof -
  have "first_title (digits rt) title_patterns html = []"
    using assms(4) by (rule first_title_none)
  then have "parse_page rt url (video_id_of rt url) html = None"
    by (simp add: parse_page_def)
  with attempts_first_success [OF assms(1-3)] show ?thesis
    by (simp add: extract_from_page_def)
qed

text \<open>A document without a heading, a meta title or a title element.\<close>

theorem no_title_no_record_witness:
  "list_all (\<lambda>p. search ascii_digits True p doc_plain = None) title_patterns \<and>
   extract_from_page (example_runtime id doc_plain) example_page = None"
proof -
  let ?rt = "example_runtime id doc_plain"
  have d: "digits ?rt = ascii_digits" and g: "http_get ?rt example_page 0 = Inr doc_plain"
    by (simp_all add: example_runtime_def)
  have t: "\<forall>p \<in> set title_patterns. search (digits ?rt) True p doc_plain = None"
    unfolding d by (rule title_patterns_doc_plain)
  from no_title_no_record [of 0 ?rt example_page doc_plain, OF _ _ g t] t d
  show ?thesis by (simp add: list_all_iff)
qed

section \<open>Episodes and the primary URL\<close>

text \<open>
  Claim C9. For every record the scraper returns, the list of episodes is empty exactly
  when the primary media URL is empty. This holds for the records without a failure
  reason, and for the failure records as well, where both are empty.
\<close>

theorem episodes_empty_iff_no_primary_url:
  assumes "extract_from_page rt url = Some v"
  shows "(episodes v = [] \<longleftrightarrow> video_url v = []) \<and>
         \<not> (episodes v = [] \<and> video_url v \<noteq> []) \<and> \<not> (episodes v \<noteq> [] \<and> video_url v = [])"
proof -
  have "episodes v = [] \<longleftrightarrow> video_url v = []"
    using extract_from_page_cases [OF assms]
  proof (elim disjE exE)
    fix e assume "v = failure_record url (video_id_of rt url) e"
    then show ?thesis by (simp add: failure_record_def)
  next
    fix html assume p: "parse_page rt url (video_id_of rt url) html = Some v"
    let ?us = "list_of_set rt (video_urls (digits rt) html)"
    show ?thesis
    proof (cases ?us)
      case Nil
      with parse_page_episodes [OF p] parse_page_video_url [OF p] show ?thesis
        by (simp add: resolve_episodes_Nil)
    next
      case (Cons u us)
      then have "u \<in> set ?us" by simp
      then have "u \<noteq> []" using video_urls_nonempty [of u "digits rt" html] by (simp add: list_of_set_set)
      with Cons parse_page_episodes [OF p] parse_page_video_url [OF p] show ?thesis
        by (simp add: resolve_episodes_Nil)
    qed
  qed
  then show ?thesis by simp
qed

text \<open>A page with two media URLs: the primary URL and the episodes are both there.\<close>

theorem episodes_empty_iff_no_primary_url_witness:
  "\<exists>v. extract_from_page (example_runtime id doc_3_1) example_page = Some v \<and>
       video_url v = url_3 \<and> episodes v \<noteq> []"
proof -
  let ?rt = "example_runtime id doc_3_1"
  have g: "http_get ?rt example_page 0 = Inr doc_3_1" and d: "digits ?rt = ascii_digits"
    by (simp_all add: example_runtime_def)
  have "first_title ascii_digits title_patterns doc_3_1 \<noteq> []"
    by (simp add: title_doc_3_1 asc_def)
  from example_runtime_page [OF this, of id example_page]
  obtain v where v: "extract_from_page ?rt example_page = Some v" by blast
  from v extract_from_page_first_attempt [OF g]
  have "parse_page ?rt example_page (video_id_of ?rt example_page) doc_3_1 = Some v" by simp
  from parse_page_video_url [OF this] have u: "video_url v = url_3"
    by (simp add: d video_urls_doc_3_1 list_of_set_id)
  then have "video_url v \<noteq> []" by (simp add: url_3_def asc_def)
  with episodes_empty_iff_no_primary_url [OF v] u v show ?thesis by blast
qed

section \<open>Failed fetches\<close>




section \<open>The count of the report\<close>

text \<open>
  Claim C8. The count the formatter returns is the number of blocks emitted, that is the
  number of video lines of the output and the sum of the blocks of the valid records, not
  the number of records. The output is, for each author in ascending order and once, the
  lines of that author's group, its records in the order of the input. A valid record with
  two episodes that have URLs and a valid record with no episode but a primary URL give
  the count 3, in either order, each under its author, the smaller author first.
\<close>

theorem emitted_count_counts_blocks:
  "snd (generate_import_text videos) = video_lines (fst (import_lines videos)) \<and>
   snd (generate_import_text videos) = block_count (valid_videos videos) \<and>
   fst (import_lines videos) =
     concat (map (\<lambda>a. group_lines a (author_group (valid_videos videos) a))
       (sorted_authors (valid_videos videos))) \<and>
   sorted (sorted_authors (valid_videos videos)) \<and>
   distinct (sorted_authors (valid_videos videos)) \<and>
   set (sorted_authors (valid_videos videos)) = group_key ` set (valid_videos videos) \<and>
   (two_episode_record v \<and> single_url_record w \<longrightarrow>
      snd (generate_import_text [v, w]) = 3 \<and> snd (generate_import_text [w, v]) = 3 \<and>
      fst (import_lines [v, w]) =
        (if group_key v = group_key w then group_lines (group_key v) [v, w]
         else if group_key v < group_key w
           then group_lines (group_key v) [v] @ group_lines (group_key w) [w]
         else group_lines (group_key w) [w] @ group_lines (group_key v) [v]))"
proof -
  have 1: "snd (generate_import_text videos) = video_lines (fst (import_lines videos))"
    by (simp add: generate_import_text_count video_lines_import)
  have 2: "snd (generate_import_text videos) = block_count (valid_videos videos)"
    by (simp add: generate_import_text_count import_lines_eq)
  have 3: "fst (import_lines videos) =
     concat (map (\<lambda>a. group_lines a (author_group (valid_videos videos) a))
       (sorted_authors (valid_videos videos)))"
    by (simp add: import_lines_eq)
  have 4: "two_episode_record v \<and> single_url_record w \<longrightarrow>
      snd (generate_import_text [v, w]) = 3 \<and> snd (generate_import_text [w, v]) = 3 \<and>
      fst (import_lines [v, w]) =
        (if group_key v = group_key w then group_lines (group_key v) [v, w]
         else if group_key v < group_key w
           then group_lines (group_key v) [v] @ group_lines (group_key w) [w]
         else group_lines (group_key w) [w] @ group_lines (group_key v) [v])"
  proof
    assume a: "two_episode_record v \<and> single_url_record w"
    then have v: "is_valid v" and w: "is_valid w"
      by (simp_all add: two_episode_record_def single_url_record_def)
    from a have b: "length (video_blocks v) = 2" "length (video_blocks w) = 1"
      by (simp_all add: two_episode_blocks single_url_blocks)
    have "snd (generate_import_text [v, w]) = 3" "snd (generate_import_text [w, v]) = 3"
      using v w b
      by (simp_all add: generate_import_text_count import_lines_eq valid_videos_def block_count_def)
    with import_lines_two [OF v w]
    show "snd (generate_import_text [v, w]) = 3 \<and> snd (generate_import_text [w, v]) = 3 \<and>
      fst (import_lines [v, w]) =
        (if group_key v = group_key w then group_lines (group_key v) [v, w]
         else if group_key v < group_key w
           then group_lines (group_key v) [v] @ group_lines (group_key w) [w]
         else group_lines (group_key w) [w] @ group_lines (group_key v) [v])"
      by simp
  qed
  from 1 2 3 4 sorted_authors_props [of "valid_videos videos"] show ?thesis by blast
qed

text \<open>A series by the author CD with two episodes and a film by the author AB.\<close>

theorem emitted_count_counts_blocks_witness:
  "two_episode_record series_record \<and> single_url_record movie_record \<and>
   snd (generate_import_text [series_record, movie_record]) = 3 \<and>
   fst (import_lines [series_record, movie_record]) =
     group_lines (asc ''AB'') [movie_record] @ group_lines (asc ''CD'') [series_record]"
proof -
  have s: "two_episode_record series_record"
    by (simp add: two_episode_record_def series_record_def is_valid_def numbered_episode_def
        url_1_def url_3_def asc_def)
  have m: "single_url_record movie_record"
    by (simp add: single_url_record_def movie_record_def is_valid_def url_video_def asc_def)
  have k: "group_key series_record = asc ''CD''" "group_key movie_record = asc ''AB''"
    by (simp_all add: group_key_def series_record_def movie_record_def asc_def)
  have lt: "asc ''AB'' < asc ''CD''" by (simp add: asc_def)
  from emitted_count_counts_blocks [of "[]" series_record movie_record] s m k lt
  show ?thesis by auto
qed

section \<open>A header without a block\<close>

text \<open>
  Claim C10. A record that passes the filter, has at most one episode and an empty primary
  URL has no block, while the header of its author is in the output of every input that
  holds it. Alone, it gives the header and an empty line with the count 0. For the example
  record the count 0 is below the number 1 of filtered records, and the output is the
  header followed by no block.
\<close>

theorem header_without_block:
  "(is_valid v \<and> length (episodes v) \<le> 1 \<and> video_url v = [] \<longrightarrow>
      video_blocks v = [] \<and>
      import_lines [v] = ([label_collection @ group_key v, []], 0) \<and>
      generate_import_text [v] = (label_collection @ group_key v @ [10], 0) \<and>
      valid_videos [v] = [v] \<and>
      (\<forall>videos. v \<in> set videos \<longrightarrow>
         label_collection @ group_key v \<in> set (fst (import_lines videos)))) \<and>
   snd (generate_import_text [orphan_record]) < length (valid_videos [orphan_record]) \<and>
   generate_import_text [orphan_record] = (label_collection @ asc ''AB'' @ [10], 0)"
proof -
  have g: "video_blocks u = [] \<and>
      import_lines [u] = ([label_collection @ group_key u, []], 0) \<and>
      generate_import_text [u] = (label_collection @ group_key u @ [10], 0) \<and>
      valid_videos [u] = [u] \<and>
      (\<forall>videos. u \<in> set videos \<longrightarrow>
         label_collection @ group_key u \<in> set (fst (import_lines videos)))"
    if a: "is_valid u \<and> length (episodes u) \<le> 1 \<and> video_url u = []" for u
  proof -
    from a have b: "video_blocks u = []" by (simp add: video_blocks_def)
    from a have v: "valid_videos [u] = [u]" by (simp add: valid_videos_def)
    have i: "import_lines [u] = ([label_collection @ group_key u, []], 0)"
      by (simp add: import_lines_eq v sorted_authors_def author_group_def group_lines_def b
          block_count_def)
    then have t: "generate_import_text [u] = (label_collection @ group_key u @ [10], 0)"
      by (simp add: generate_import_text_def)
    from a b v i t show ?thesis by (auto intro: header_in_import_lines)
  qed
  have o: "is_valid orphan_record \<and> length (episodes orphan_record) \<le> 1 \<and>
      video_url orphan_record = []"
    by (simp add: orphan_record_def is_valid_def asc_def)
  have k: "group_key orphan_record = asc ''AB''"
    by (simp add: group_key_def orphan_record_def asc_def)
  from g [OF o] k
  have "snd (generate_import_text [orphan_record]) < length (valid_videos [orphan_record])"
    and "generate_import_text [orphan_record] = (label_collection @ asc ''AB'' @ [10], 0)"
    by simp_all
  with g show ?thesis by blast
qed

text \<open>The record whose only episode has no URL.\<close>

theorem header_without_block_witness:
  "is_valid orphan_record \<and> length (episodes orphan_record) = 1 \<and> video_url orphan_record = [] \<and>
   import_lines [orphan_record] = ([label_collection @ asc ''AB'', []], 0)"
proof -
  have o: "is_valid orphan_record" "length (episodes orphan_record) = 1"
      "video_url orphan_record = []"
    by (simp_all add: orphan_record_def is_valid_def asc_def)
  have k: "group_key orphan_record = asc ''AB''"
    by (simp add: group_key_def orphan_record_def asc_def)
  from header_without_block [of orphan_record] o k show ?thesis by simp
qed

section \<open>The id of a record\<close>

text \<open>
  Claim C2 as stated fails: the id is not derived from the URL alone. For a URL without a
  token the id is taken from the string hash of the running process, and two runtimes
  whose hashes of the URL differ give two different ids for the same URL.
\<close>

theorem hash_seed_counterexample:
  "video_id_of (hashed_runtime 1234567890123) about_page = asc ''12345678'' \<and>
   video_id_of (hashed_runtime (- 987654321)) about_page = asc ''-9876543''"
proof -
  have n: "first_token ascii_digits about_page = None"
    by (simp add: token_at_def about_page_def asc_def)
  have 1: "py_str 1234567890123 = asc ''1234567890123''"
    by (simp add: py_str_def str_nat.simps asc_def)
  have 2: "py_str (- 987654321) = asc ''-987654321''"
    by (simp add: py_str_def str_nat.simps asc_def)
  show ?thesis
    by (simp add: video_id_of_def hashed_runtime_def search_archive n 1 2) (simp add: asc_def)
qed

text \<open>
  Claim C2, amended. When the URL contains numeric archive tokens, the id is the digit
  string of the leftmost one. Otherwise the id is the first 8 characters of the decimal
  text of the hash the runtime gives the URL. The id is the same for two runtimes that
  agree on the digits and on the hash of the URL, so it is the same at every evaluation
  within one process; it need not be the same in another process.
\<close>

theorem record_id_of_url:
  "(url = pre @ archive_token d @ post \<and> digit_string (digits rt) d \<and>
      (\<forall>pre' d' post'. url = pre' @ archive_token d' @ post' \<and> digit_string (digits rt) d' \<longrightarrow>
         length pre \<le> length pre') \<longrightarrow>
      video_id_of rt url = d) \<and>
   ((\<exists>pre d post. url = pre @ archive_token d @ post \<and> digit_string (digits rt) d) \<longrightarrow>
      (\<exists>pre d post. url = pre @ archive_token d @ post \<and> digit_string (digits rt) d \<and>
         video_id_of rt url = d)) \<and>
   ((\<forall>pre d post. url = pre @ archive_token d @ post \<longrightarrow> \<not> digit_string (digits rt) d) \<longrightarrow>
      video_id_of rt url = take 8 (py_str (str_hash rt url))) \<and>
   (digits rt' = digits rt \<and> str_hash rt' url = str_hash rt url \<longrightarrow>
      video_id_of rt' url = video_id_of rt url)"
proof (intro conjI impI)
  assume "url = pre @ archive_token d @ post \<and> digit_string (digits rt) d \<and>
      (\<forall>pre' d' post'. url = pre' @ archive_token d' @ post' \<and> digit_string (digits rt) d' \<longrightarrow>
         length pre \<le> length pre')"
  then have "first_token (digits rt) url = Some d" by (intro leftmost_token) auto
  then show "video_id_of rt url = d" by (simp add: video_id_of_def search_archive)
next
  assume "\<exists>pre d post. url = pre @ archive_token d @ post \<and> digit_string (digits rt) d"
  then obtain pre d post where u: "url = pre @ archive_token d @ post"
    and d: "digit_string (digits rt) d" by blast
  have "first_token (digits rt) url \<noteq> None"
    using first_token_None [of "digits rt" url pre d post] u d by blast
  then obtain e where e: "first_token (digits rt) url = Some e" by auto
  from first_token_Some [OF e] e
  show "\<exists>pre d post. url = pre @ archive_token d @ post \<and> digit_string (digits rt) d \<and>
         video_id_of rt url = d"
    by (auto simp: video_id_of_def search_archive)
next
  assume a: "\<forall>pre d post. url = pre @ archive_token d @ post \<longrightarrow> \<not> digit_string (digits rt) d"
  have "first_token (digits rt) url = None"
  proof (rule ccontr)
    assume "first_token (digits rt) url \<noteq> None"
    then obtain e where "first_token (digits rt) url = Some e" by auto
    from first_token_Some [OF this] a show False by blast
  qed
  then show "video_id_of rt url = take 8 (py_str (str_hash rt url))"
    by (simp add: video_id_of_def search_archive)
next
  assume "digits rt' = digits rt \<and> str_hash rt' url = str_hash rt url"
  then show "video_id_of rt' url = video_id_of rt url"
    by (auto simp: video_id_of_def split: option.splits)
qed

text \<open>A page URL whose only token has the digits 12.\<close>

theorem record_id_of_url_witness:
  "video_id_of (example_runtime id doc_plain) example_page = asc ''12'' \<and>
   digit_string ascii_digits (asc ''12'')"
proof -
  let ?rt = "example_runtime id doc_plain"
  have d: "digits ?rt = ascii_digits" by (simp add: example_runtime_def)
  have ds: "digit_string ascii_digits (asc ''12'')"
    by (simp add: digit_string_def is_digit_def decimal_value_def asc_def)
  have l: "length (asc ''https://tv.mikiacg.org'') = 22" by (simp add: asc_def)
  have m: "\<forall>pre' d' post'. example_page = pre' @ archive_token d' @ post' \<and>
      digit_string (digits ?rt) d' \<longrightarrow> length (asc ''https://tv.mikiacg.org'') \<le> length pre'"
    unfolding l d using scan_leftmost [OF _ _ example_page_scan] by blast
  from record_id_of_url [of example_page "asc ''https://tv.mikiacg.org''" "asc ''12''" "[]" ?rt ?rt]
    example_page_split ds m d
  show ?thesis by simp
qed

end
